theory Spec2Isabelle
  imports Main "HOL-Library.Signed_Division"
begin

section \<open>The rolling window of core/collection/rollingwindow.go\<close>

text \<open>
  Go's \<open>int\<close> and \<open>time.Duration\<close> are 64-bit signed integers. The index arithmetic of
  the window stays below \<open>2 * size + 1\<close>, where \<open>size\<close> is the length of an allocated slice,
  and the clock arithmetic is a difference of two clock readings, so both are modelled on
  \<open>int\<close>. \<open>Bucket.Count\<close> is incremented by every \<open>Add\<close> without any bound, so its
  two's-complement wrap-around is written out (\<open>wrap64\<close>). Go's \<open>/\<close> and \<open>%\<close> truncate
  towards zero (\<open>sdiv\<close>, \<open>smod\<close>) and panic on a zero divisor. A \<open>float64\<close> is any type
  with a zero and an addition: no law of the addition is used. The lock is not modelled:
  every operation runs alone.
\<close>

datatype panic =
  SizeMustBeGreaterThanZero | MakeSliceLenOutOfRange | DivideByZero | IndexOutOfRange

definition wrap64 :: "int \<Rightarrow> int" where
  "wrap64 x = (x + 2 ^ 63) mod 2 ^ 64 - 2 ^ 63"

definition go_div :: "int \<Rightarrow> int \<Rightarrow> panic + int" where
  "go_div a b = (if b = 0 then Inl DivideByZero else Inr (a sdiv b))"

definition go_mod :: "int \<Rightarrow> int \<Rightarrow> panic + int" where
  "go_mod a b = (if b = 0 then Inl DivideByZero else Inr (a smod b))"

subsection \<open>Bucket\<close>

record 'a Bucket =
  Sum :: 'a
  Count :: int

definition Bucket_add :: "'a::plus Bucket \<Rightarrow> 'a \<Rightarrow> 'a Bucket" where
  "Bucket_add b v = b\<lparr>Sum := Sum b + v, Count := wrap64 (Count b + 1)\<rparr>"

definition Bucket_reset :: "'a::zero Bucket \<Rightarrow> 'a Bucket" where
  "Bucket_reset b = b\<lparr>Sum := 0, Count := 0\<rparr>"

subsection \<open>window\<close>

record 'a window =
  buckets :: "'a Bucket list"
  size_w :: int

text \<open>
  \<open>make([]*Bucket, size)\<close> panics (\<open>makeslice: len out of range\<close>) when the size is negative
  or more than the runtime can allocate. The Go runtime is not part of the sources and its
  limit depends on the platform (\<open>2 ^ 45\<close> pointers under the \<open>maxAlloc\<close> of \<open>2 ^ 48\<close> bytes
  of linux/amd64), so the largest size it grants is the parameter \<open>maxLen\<close>.
  \<open>new(Bucket)\<close> is the zero value of the struct; the loop stores one in every slot.
\<close>

definition newWindow :: "int \<Rightarrow> int \<Rightarrow> panic + 'a::zero window" where
  "newWindow maxLen n =
     (if n < 0 \<or> maxLen < n then Inl MakeSliceLenOutOfRange
      else Inr \<lparr>buckets = replicate (nat n) \<lparr>Sum = 0, Count = 0\<rparr>, size_w = n\<rparr>)"

text \<open>
  The address computation \<open>w.buckets[offset % w.size]\<close> shared by \<open>add\<close>, \<open>reduce\<close> and
  \<open>resetBucket\<close>: the remainder panics on a zero size, the indexing outside the slice.
\<close>

definition bucket_at :: "'a window \<Rightarrow> int \<Rightarrow> panic + nat" where
  "bucket_at w off =
     (case go_mod off (size_w w) of
        Inl e \<Rightarrow> Inl e
      | Inr i \<Rightarrow> if 0 \<le> i \<and> i < int (length (buckets w)) then Inr (nat i)
                else Inl IndexOutOfRange)"

definition window_add :: "'a::plus window \<Rightarrow> int \<Rightarrow> 'a \<Rightarrow> panic + 'a window" where
  "window_add w off v =
     (case bucket_at w off of
        Inl e \<Rightarrow> Inl e
      | Inr k \<Rightarrow> Inr (w\<lparr>buckets := (buckets w)[k := Bucket_add (buckets w ! k) v]\<rparr>))"

definition window_resetBucket :: "'a::zero window \<Rightarrow> int \<Rightarrow> panic + 'a window" where
  "window_resetBucket w off =
     (case bucket_at w off of
        Inl e \<Rightarrow> Inl e
      | Inr k \<Rightarrow> Inr (w\<lparr>buckets := (buckets w)[k := Bucket_reset (buckets w ! k)]\<rparr>))"

text \<open>
  A visitor \<open>fn(b *Bucket)\<close> receives a pointer: it sees which slot it is given and the
  bucket stored there, may write the bucket, and carries the state of its closure.
\<close>

type_synonym ('a, 's) visitor = "nat \<Rightarrow> 'a Bucket \<Rightarrow> 's \<Rightarrow> 'a Bucket \<times> 's"

function window_reduce ::
  "'a window \<Rightarrow> int \<Rightarrow> int \<Rightarrow> ('a, 's) visitor \<Rightarrow> int \<Rightarrow> 's \<Rightarrow> panic + 'a window \<times> 's" where
  "window_reduce w start count fn i s =
     (if i < count then
        (case bucket_at w (start + i) of
           Inl e \<Rightarrow> Inl e
         | Inr k \<Rightarrow>
             (case fn k (buckets w ! k) s of
                (b', s') \<Rightarrow>
                  window_reduce (w\<lparr>buckets := (buckets w)[k := b']\<rparr>) start count fn (i + 1) s'))
      else Inr (w, s))"
  by pat_completeness auto
termination
  by (relation "measure (\<lambda>(w, start, count, fn, i, s). nat (count - i))") auto

subsection \<open>RollingWindow\<close>

record 'a RollingWindow =
  size_rw :: int
  win :: "'a window"
  interval :: int
  offset :: int
  ignoreCurrent :: bool
  lastTime :: int

type_synonym 'a RollingWindowOption = "'a RollingWindow \<Rightarrow> 'a RollingWindow"

definition IgnoreCurrentBucket :: "'a RollingWindowOption" where
  "IgnoreCurrentBucket w = w\<lparr>ignoreCurrent := True\<rparr>"

text \<open>
  Modelled from the spec: package \<open>timex\<close> is not part of the sources. \<open>timex.Now()\<close> is
  the clock reading, a parameter \<open>now\<close> of every operation that reads the clock, and
  \<open>timex.Since(d)\<close> is the elapsed time \<open>now() - d\<close>.
\<close>

definition Since :: "int \<Rightarrow> int \<Rightarrow> int" where
  "Since now d = now - d"

definition NewRollingWindow ::
  "int \<Rightarrow> int \<Rightarrow> int \<Rightarrow> 'a RollingWindowOption list \<Rightarrow> int \<Rightarrow>
   panic + 'a::zero RollingWindow" where
  "NewRollingWindow maxLen n ival opts now =
     (if n < 1 then Inl SizeMustBeGreaterThanZero
      else
        (case newWindow maxLen n of
           Inl e \<Rightarrow> Inl e
         | Inr w \<Rightarrow>
             Inr (fold (\<lambda>opt w. opt w) opts
                    \<lparr>size_rw = n, win = w, interval = ival, offset = 0,
                     ignoreCurrent = False, lastTime = now\<rparr>)))"

definition span :: "'a RollingWindow \<Rightarrow> int \<Rightarrow> panic + int" where
  "span rw now =
     (case go_div (Since now (lastTime rw)) (interval rw) of
        Inl e \<Rightarrow> Inl e
      | Inr off \<Rightarrow> if 0 \<le> off \<and> off < size_rw rw then Inr off else Inr (size_rw rw))"

text \<open>The loop of \<open>updateOffset\<close> that resets the expired buckets.\<close>

function reset_expired :: "'a::zero window \<Rightarrow> int \<Rightarrow> int \<Rightarrow> int \<Rightarrow> int \<Rightarrow> panic + 'a window" where
  "reset_expired w off n sp i =
     (if i < sp then
        (case go_mod (off + i + 1) n of
           Inl e \<Rightarrow> Inl e
         | Inr j \<Rightarrow>
             (case window_resetBucket w j of
                Inl e \<Rightarrow> Inl e
              | Inr w' \<Rightarrow> reset_expired w' off n sp (i + 1)))
      else Inr w)"
  by pat_completeness auto
termination
  by (relation "measure (\<lambda>(w, off, n, sp, i). nat (sp - i))") auto

text \<open>
  \<open>updateOffset\<close> reads the clock twice: \<open>now1\<close> inside \<open>span()\<close> and \<open>now2\<close> for the
  alignment of \<open>lastTime\<close>.
\<close>

definition updateOffset :: "'a::zero RollingWindow \<Rightarrow> int \<Rightarrow> int \<Rightarrow> panic + 'a RollingWindow" where
  "updateOffset rw now1 now2 =
     (case span rw now1 of
        Inl e \<Rightarrow> Inl e
      | Inr sp \<Rightarrow>
          if sp \<le> 0 then Inr rw
          else
            (case reset_expired (win rw) (offset rw) (size_rw rw) sp 0 of
               Inl e \<Rightarrow> Inl e
             | Inr w' \<Rightarrow>
                 (case go_mod (offset rw + sp) (size_rw rw) of
                    Inl e \<Rightarrow> Inl e
                  | Inr off' \<Rightarrow>
                      (case go_mod (now2 - lastTime rw) (interval rw) of
                         Inl e \<Rightarrow> Inl e
                       | Inr r \<Rightarrow>
                           Inr (rw\<lparr>win := w', offset := off', lastTime := now2 - r\<rparr>)))))"

definition Add ::
  "'a::{zero,plus} RollingWindow \<Rightarrow> int \<Rightarrow> int \<Rightarrow> 'a \<Rightarrow> panic + 'a RollingWindow" where
  "Add rw now1 now2 v =
     (case updateOffset rw now1 now2 of
        Inl e \<Rightarrow> Inl e
      | Inr rw' \<Rightarrow>
          (case window_add (win rw') (offset rw') v of
             Inl e \<Rightarrow> Inl e
           | Inr w' \<Rightarrow> Inr (rw'\<lparr>win := w'\<rparr>)))"

definition Reduce ::
  "'a RollingWindow \<Rightarrow> int \<Rightarrow> ('a, 's) visitor \<Rightarrow> 's \<Rightarrow> panic + 'a RollingWindow \<times> 's" where
  "Reduce rw now fn s =
     (case span rw now of
        Inl e \<Rightarrow> Inl e
      | Inr sp \<Rightarrow>
          (let diff = (if sp = 0 \<and> ignoreCurrent rw then size_rw rw - 1 else size_rw rw - sp)
           in if diff > 0 then
                (case go_mod (offset rw + sp + 1) (size_rw rw) of
                   Inl e \<Rightarrow> Inl e
                 | Inr start \<Rightarrow>
                     (case window_reduce (win rw) start diff fn 0 s of
                        Inl e \<Rightarrow> Inl e
                      | Inr (w', s') \<Rightarrow> Inr (rw\<lparr>win := w'\<rparr>, s')))
              else Inr (rw, s)))"

subsection \<open>Notions used by the statements\<close>

text \<open>The window that \<open>newWindow\<close> returns when the runtime grants its size.\<close>

definition fresh_window :: "int \<Rightarrow> 'a::zero window" where
  "fresh_window n = \<lparr>buckets = replicate (nat n) \<lparr>Sum = 0, Count = 0\<rparr>, size_w = n\<rparr>"

text \<open>
  The structural invariant of an instance: the ring has \<open>size\<close> buckets, at least one, and
  the active slot lies inside it.
\<close>

definition valid :: "'a RollingWindow \<Rightarrow> bool" where
  "valid rw \<longleftrightarrow>
     1 \<le> size_rw rw \<and> size_w (win rw) = size_rw rw \<and>
     int (length (buckets (win rw))) = size_rw rw \<and>
     0 \<le> offset rw \<and> offset rw < size_rw rw"

text \<open>
  The span as the specification words it, with the floor of the quotient (\<open>div\<close> on
  \<open>int\<close> rounds towards minus infinity), to be compared with \<open>span\<close>.
\<close>

definition span_spec :: "'a RollingWindow \<Rightarrow> int \<Rightarrow> int" where
  "span_spec rw now =
     (let q = (now - lastTime rw) div interval rw
      in if 0 \<le> q \<and> q < size_rw rw then q else size_rw rw)"

text \<open>Resetting the buckets of a list of slots, one after the other.\<close>

fun reset_slots :: "nat list \<Rightarrow> 'a::zero Bucket list \<Rightarrow> 'a Bucket list" where
  "reset_slots [] bs = bs"
| "reset_slots (k # ks) bs = reset_slots ks (bs[k := Bucket_reset (bs ! k)])"

text \<open>A window of three buckets with data, the active slot being the last one.\<close>

definition sample_rw :: "int RollingWindow" where
  "sample_rw =
     \<lparr>size_rw = 3,
      win = \<lparr>buckets = [\<lparr>Sum = 5, Count = 2\<rparr>, \<lparr>Sum = 7, Count = 1\<rparr>, \<lparr>Sum = 9, Count = 4\<rparr>],
             size_w = 3\<rparr>,
      interval = 100, offset = 2, ignoreCurrent = False, lastTime = 0\<rparr>"

text \<open>
  What \<open>window.reduce\<close> does on a list of slots: the visitor is called on them in
  order, each call seeing the buckets as the calls before it left them.
\<close>

fun visit_slots ::
  "('a, 's) visitor \<Rightarrow> nat list \<Rightarrow> 'a Bucket list \<Rightarrow> 's \<Rightarrow> 'a Bucket list \<times> 's" where
  "visit_slots fn [] bs s = (bs, s)"
| "visit_slots fn (k # ks) bs s =
     (case fn k (bs ! k) s of (b', s') \<Rightarrow> visit_slots fn ks (bs[k := b']) s')"

text \<open>A visitor that writes no bucket.\<close>

definition non_mutating :: "('a, 's) visitor \<Rightarrow> bool" where
  "non_mutating fn \<longleftrightarrow> (\<forall>k b s. fst (fn k b s) = b)"

text \<open>Two such visitors: one logs the slot and the bucket of each call, one adds the counts.\<close>

definition record_visit :: "('a, (nat \<times> 'a Bucket) list) visitor" where
  "record_visit k b t = (b, t @ [(k, b)])"

definition count_total :: "('a, int) visitor" where
  "count_total k b t = (b, t + Count b)"

text \<open>The number of buckets \<open>Reduce\<close> reads for a span, and their slots in ring order.\<close>

definition reduce_diff :: "'a RollingWindow \<Rightarrow> int \<Rightarrow> int" where
  "reduce_diff rw sp = (if sp = 0 \<and> ignoreCurrent rw then size_rw rw - 1 else size_rw rw - sp)"

definition reduce_slots :: "'a RollingWindow \<Rightarrow> int \<Rightarrow> nat list" where
  "reduce_slots rw sp =
     map (\<lambda>i. nat ((offset rw + sp + 1 + i) mod size_rw rw)) [0..reduce_diff rw sp - 1]"

text \<open>A fresh window of three buckets made with \<open>IgnoreCurrentBucket\<close> at clock reading 0.\<close>

definition ignoring_rw :: "int RollingWindow" where
  "ignoring_rw = \<lparr>size_rw = 3, win = fresh_window 3, interval = 100, offset = 0,
                   ignoreCurrent = True, lastTime = 0\<rparr>"

text \<open>A window of five buckets with data, the active slot being the last one.\<close>

definition five_rw :: "int RollingWindow" where
  "five_rw =
     \<lparr>size_rw = 5,
      win = \<lparr>buckets = [\<lparr>Sum = 5, Count = 2\<rparr>, \<lparr>Sum = 7, Count = 1\<rparr>, \<lparr>Sum = 0, Count = 0\<rparr>,
                        \<lparr>Sum = 3, Count = 3\<rparr>, \<lparr>Sum = 9, Count = 4\<rparr>],
             size_w = 5\<rparr>,
      interval = 1000000000, offset = 4, ignoreCurrent = False, lastTime = 0\<rparr>"

text \<open>
  Histories: a call of \<open>Add\<close> with its two clock readings and its value, or a call of
  \<open>Reduce\<close> with its clock reading, its visitor and the state the visitor starts from.
  \<open>run\<close> makes the calls one after the other and stops at the first panic.
\<close>

datatype ('a, 's) call = CallAdd int int 'a | CallReduce int "('a, 's) visitor" 's

fun run :: "'a::{zero,plus} RollingWindow \<Rightarrow> ('a, 's) call list \<Rightarrow> panic + 'a RollingWindow" where
  "run rw [] = Inr rw"
| "run rw (CallAdd now1 now2 v # cs) =
     (case Add rw now1 now2 v of Inl e \<Rightarrow> Inl e | Inr rw' \<Rightarrow> run rw' cs)"
| "run rw (CallReduce now fn st # cs) =
     (case Reduce rw now fn st of Inl e \<Rightarrow> Inl e | Inr (rw', st') \<Rightarrow> run rw' cs)"

text \<open>The clock readings of a history, in the order they are taken.\<close>

fun readings :: "('a, 's) call \<Rightarrow> int list" where
  "readings (CallAdd now1 now2 v) = [now1, now2]"
| "readings (CallReduce now fn st) = [now]"

definition clock_of :: "('a, 's) call list \<Rightarrow> int list" where
  "clock_of cs = concat (map readings cs)"

text \<open>A call whose visitor, if it has one, writes no bucket.\<close>

fun non_mutating_call :: "('a, 's) call \<Rightarrow> bool" where
  "non_mutating_call (CallAdd now1 now2 v) = True"
| "non_mutating_call (CallReduce now fn st) = non_mutating fn"

text \<open>A bucket with a count between 0 and \<open>m\<close> and no sum left without a count.\<close>

definition bucket_ok :: "int \<Rightarrow> 'a::zero Bucket \<Rightarrow> bool" where
  "bucket_ok m b \<longleftrightarrow> 0 \<le> Count b \<and> Count b \<le> m \<and> (Count b = 0 \<longrightarrow> Sum b = 0)"

text \<open>A window of one bucket whose clock stands still at its construction time.\<close>

definition frozen_rw :: "int \<Rightarrow> int \<Rightarrow> int RollingWindow" where
  "frozen_rw s c =
     \<lparr>size_rw = 1, win = \<lparr>buckets = [\<lparr>Sum = s, Count = c\<rparr>], size_w = 1\<rparr>,
      interval = 1000000000, offset = 0, ignoreCurrent = False, lastTime = 0\<rparr>"

section \<open>Properties\<close>

subsection \<open>Arithmetic and addressing\<close>

lemma go_mod_nonneg: "0 \<le> a \<Longrightarrow> 0 < n \<Longrightarrow> go_mod a n = Inr (a mod n)"
  by (simp add: go_mod_def smod_mod_positive)

lemma sdiv_nonneg_eq_div: "0 \<le> a \<Longrightarrow> 0 < b \<Longrightarrow> a sdiv b = a div (b::int)"
  by (simp add: signed_divide_int_def sgn_if)

lemma dvd_small_zero: "(n::int) dvd d \<Longrightarrow> \<bar>d\<bar> < n \<Longrightarrow> d = 0"
  by (metis zero_less_abs_iff dvd_abs_iff zdvd_not_zless)

lemma bucket_at_ok:
  "size_w w = n \<Longrightarrow> int (length (buckets w)) = n \<Longrightarrow> 0 < n \<Longrightarrow> 0 \<le> a \<Longrightarrow>
   bucket_at w a = Inr (nat (a mod n))"
  by (simp add: bucket_at_def go_mod_nonneg)

lemma ring_slots_inj:
  fixes n :: int
  assumes "0 < n" "s \<le> n"
  shows "inj_on (\<lambda>i. nat ((off + i + 1) mod n)) {0..s - 1}"
proof (rule inj_onI)
  fix i i' assume i: "i \<in> {0..s - 1}" and i': "i' \<in> {0..s - 1}"
    and eq: "nat ((off + i + 1) mod n) = nat ((off + i' + 1) mod n)"
  have "0 \<le> (off + i + 1) mod n" "0 \<le> (off + i' + 1) mod n"
    using assms(1) by simp_all
  with eq have "(off + i + 1) mod n = (off + i' + 1) mod n"
    by linarith
  then have "n dvd ((off + i + 1) - (off + i' + 1))"
    by (simp only: mod_eq_dvd_iff)
  then have "n dvd (i - i')" by simp
  moreover have "\<bar>i - i'\<bar> < n" using i i' assms(2) by auto
  ultimately have "i - i' = 0" by (rule dvd_small_zero)
  then show "i = i'" by simp
qed

subsection \<open>span\<close>

lemma span_cases:
  "interval rw \<noteq> 0 \<Longrightarrow>
   span rw now = Inr (let q = (now - lastTime rw) sdiv interval rw
                      in if 0 \<le> q \<and> q < size_rw rw then q else size_rw rw)"
  by (simp add: span_def go_div_def Since_def Let_def)

lemma span_zero_interval: "interval rw = 0 \<Longrightarrow> span rw now = Inl DivideByZero"
  by (simp add: span_def go_div_def)

lemma span_Inr_iff: "(\<exists>sp. span rw now = Inr sp) \<longleftrightarrow> interval rw \<noteq> 0"
  by (auto simp: span_def go_div_def split: if_splits)

lemma span_range:
  "span rw now = Inr sp \<Longrightarrow> 1 \<le> size_rw rw \<Longrightarrow> 0 \<le> sp \<and> sp \<le> size_rw rw"
  by (auto simp: span_def go_div_def split: if_splits)

text \<open>
  C2, as the code has it: with a non-zero interval, \<open>span\<close> returns the quotient of the
  elapsed time by the interval, truncated towards zero as Go's \<open>/\<close> does, when this
  quotient lies in \<open>[0, size)\<close>, and \<open>size\<close> in every other case. For an elapsed time
  that is not negative and a positive interval this is the floor of the specification.
\<close>

theorem span_truncates:
  assumes "interval rw \<noteq> 0"
  shows "span rw now =
           Inr (let q = (now - lastTime rw) sdiv interval rw
                in if 0 \<le> q \<and> q < size_rw rw then q else size_rw rw) \<and>
         (0 \<le> now - lastTime rw \<and> 0 < interval rw \<longrightarrow> span rw now = Inr (span_spec rw now))"
  using assms by (simp add: span_cases span_spec_def sdiv_nonneg_eq_div)

theorem span_truncates_witness:
  "interval sample_rw \<noteq> 0 \<and> 0 \<le> 250 - lastTime sample_rw \<and> 0 < interval sample_rw \<and>
   span sample_rw 250 = Inr 2 \<and> span_spec sample_rw 250 = 2"
  using span_truncates [of sample_rw 250]
  by (simp add: sample_rw_def span_spec_def)

text \<open>
  C2 as it is stated fails when the clock reads less than \<open>lastTime\<close> by less than one
  interval: a window made at clock reading 50 with an interval of 100 (on a platform whose
  runtime grants \<open>2 ^ 45\<close> buckets), read at clock
  reading 0, has a span of 0, where the floor of the quotient is \<open>-1\<close> and the stated
  result is the size, 3.
\<close>

theorem span_floor_counterexample:
  "NewRollingWindow (2 ^ 45) 3 100 [] 50 =
     Inr \<lparr>size_rw = 3, win = (fresh_window 3 :: int window), interval = 100, offset = 0,
          ignoreCurrent = False, lastTime = 50\<rparr> \<and>
   span \<lparr>size_rw = 3, win = (fresh_window 3 :: int window), interval = 100, offset = 0,
         ignoreCurrent = False, lastTime = 50\<rparr> 0 = Inr 0 \<and>
   span_spec \<lparr>size_rw = 3, win = (fresh_window 3 :: int window), interval = 100, offset = 0,
         ignoreCurrent = False, lastTime = 50\<rparr> 0 = 3"
  by (simp add: NewRollingWindow_def newWindow_def fresh_window_def span_def span_spec_def
      go_div_def Since_def signed_divide_int_def)

subsection \<open>updateOffset\<close>

lemma Bucket_reset_eq: "Bucket_reset (b :: 'a::zero Bucket) = \<lparr>Sum = 0, Count = 0\<rparr>"
  by (simp add: Bucket_reset_def)

lemma length_reset_slots: "length (reset_slots ks bs) = length bs"
  by (induction ks arbitrary: bs) auto

lemma nth_reset_slots:
  "j < length bs \<Longrightarrow>
   reset_slots ks bs ! j = (if j \<in> set ks then \<lparr>Sum = 0, Count = 0\<rparr> else bs ! j)"
proof (induction ks arbitrary: bs)
  case Nil
  then show ?case by simp
next
  case (Cons k ks)
  then show ?case
    by (auto simp: Bucket_reset_eq nth_list_update)
qed

lemma window_resetBucket_ok:
  "size_w w = n \<Longrightarrow> int (length (buckets w)) = n \<Longrightarrow> 0 < n \<Longrightarrow> 0 \<le> a \<Longrightarrow>
   window_resetBucket w a =
     Inr (w\<lparr>buckets := (buckets w)[nat (a mod n) := Bucket_reset (buckets w ! nat (a mod n))]\<rparr>)"
  by (simp add: window_resetBucket_def bucket_at_ok)

lemma reset_expired_ok:
  "size_w w = n \<Longrightarrow> int (length (buckets w)) = n \<Longrightarrow> 0 < n \<Longrightarrow> 0 \<le> off \<Longrightarrow> 0 \<le> i \<Longrightarrow>
   reset_expired w off n sp i =
     Inr (w\<lparr>buckets := reset_slots (map (\<lambda>k. nat ((off + k + 1) mod n)) [i..sp - 1]) (buckets w)\<rparr>)"
proof (induction w off n sp i rule: reset_expired.induct)
  case (1 w off n sp i)
  show ?case
  proof (cases "i < sp")
    case False
    then show ?thesis by (simp add: reset_expired.simps [of w off n sp i])
  next
    case True
    let ?j = "(off + i + 1) mod n"
    let ?w' = "w\<lparr>buckets := (buckets w)[nat ?j := Bucket_reset (buckets w ! nat ?j)]\<rparr>"
    have gm: "go_mod (off + i + 1) n = Inr ?j"
      using 1 by (simp add: go_mod_nonneg)
    have j0: "0 \<le> ?j" using 1 by simp
    have rb: "window_resetBucket w ?j = Inr ?w'"
      using 1 j0 by (simp add: window_resetBucket_ok)
    have ih: "reset_expired ?w' off n sp (i + 1) =
      Inr (?w'\<lparr>buckets := reset_slots (map (\<lambda>k. nat ((off + k + 1) mod n)) [i + 1..sp - 1]) (buckets ?w')\<rparr>)"
      using 1 True gm rb by (intro "1.IH"[OF True gm rb]) auto
    have up: "[i..sp - 1] = i # [i + 1..sp - 1]"
      using True by (simp add: upto_rec1)
    show ?thesis
      using True gm rb ih up
      by (simp add: reset_expired.simps [of w off n sp i])
  qed
qed

lemma updateOffset_unfold:
  assumes v: "valid rw" and sp: "span rw now1 = Inr s" and pos: "0 < s"
  shows "updateOffset rw now1 now2 =
           Inr (rw\<lparr>win := (win rw)\<lparr>buckets :=
                        reset_slots (map (\<lambda>k. nat ((offset rw + k + 1) mod size_rw rw)) [0..s - 1])
                          (buckets (win rw))\<rparr>,
                    offset := (offset rw + s) mod size_rw rw,
                    lastTime := now2 - (now2 - lastTime rw) smod interval rw\<rparr>)"
proof -
  have iv: "interval rw \<noteq> 0"
    using sp span_Inr_iff by blast
  have re: "reset_expired (win rw) (offset rw) (size_rw rw) s 0 =
      Inr ((win rw)\<lparr>buckets :=
             reset_slots (map (\<lambda>k. nat ((offset rw + k + 1) mod size_rw rw)) [0..s - 1])
               (buckets (win rw))\<rparr>)"
    using v by (intro reset_expired_ok) (auto simp: valid_def)
  have gm: "go_mod (offset rw + s) (size_rw rw) = Inr ((offset rw + s) mod size_rw rw)"
    using v pos by (intro go_mod_nonneg) (auto simp: valid_def)
  show ?thesis
    using sp pos re gm iv by (simp add: updateOffset_def go_mod_def)
qed

lemma updateOffset_idle:
  "span rw now1 = Inr s \<Longrightarrow> s \<le> 0 \<Longrightarrow> updateOffset rw now1 now2 = Inr rw"
  by (simp add: updateOffset_def)

text \<open>
  C1: on an instance that satisfies the structural invariant, with \<open>s\<close> the value of
  \<open>span()\<close>: if \<open>s \<le> 0\<close> then \<open>updateOffset\<close> returns the state as it was; otherwise it
  resets the buckets of the slots \<open>(offset + i + 1) mod size\<close> for \<open>i\<close> from \<open>0\<close> to
  \<open>s - 1\<close>, which are \<open>s\<close> different slots, leaves every other bucket as it was, and sets
  the offset to \<open>(offset + s) mod size\<close>, which lies in \<open>[0, size)\<close>.
\<close>

theorem updateOffset_resets_span_buckets:
  assumes "valid rw" and "span rw now1 = Inr s"
  shows "(s \<le> 0 \<longrightarrow> updateOffset rw now1 now2 = Inr rw) \<and>
         (0 < s \<longrightarrow>
            (\<exists>rw'. updateOffset rw now1 now2 = Inr rw' \<and>
               card ((\<lambda>i. nat ((offset rw + i + 1) mod size_rw rw)) ` {0..s - 1}) = nat s \<and>
               length (buckets (win rw')) = length (buckets (win rw)) \<and>
               (\<forall>j < length (buckets (win rw)).
                  buckets (win rw') ! j =
                    (if j \<in> (\<lambda>i. nat ((offset rw + i + 1) mod size_rw rw)) ` {0..s - 1}
                     then \<lparr>Sum = 0, Count = 0\<rparr> else buckets (win rw) ! j)) \<and>
               offset rw' = (offset rw + s) mod size_rw rw \<and>
               0 \<le> offset rw' \<and> offset rw' < size_rw rw' \<and>
               size_rw rw' = size_rw rw \<and> size_w (win rw') = size_w (win rw) \<and>
               interval rw' = interval rw \<and> ignoreCurrent rw' = ignoreCurrent rw))"
proof (intro conjI impI)
  assume "s \<le> 0"
  with assms(2) show "updateOffset rw now1 now2 = Inr rw"
    by (rule updateOffset_idle)
next
  assume pos: "0 < s"
  let ?f = "\<lambda>i. nat ((offset rw + i + 1) mod size_rw rw)"
  have n: "0 < size_rw rw" using assms(1) by (simp add: valid_def)
  have le: "s \<le> size_rw rw"
    using span_range [OF assms(2)] assms(1) by (simp add: valid_def)
  have "card (?f ` {0..s - 1}) = card {0..s - 1}"
    using ring_slots_inj [OF n le] by (rule card_image)
  then have c: "card (?f ` {0..s - 1}) = nat s" by simp
  show "\<exists>rw'. updateOffset rw now1 now2 = Inr rw' \<and>
               card (?f ` {0..s - 1}) = nat s \<and>
               length (buckets (win rw')) = length (buckets (win rw)) \<and>
               (\<forall>j < length (buckets (win rw)).
                  buckets (win rw') ! j =
                    (if j \<in> ?f ` {0..s - 1}
                     then \<lparr>Sum = 0, Count = 0\<rparr> else buckets (win rw) ! j)) \<and>
               offset rw' = (offset rw + s) mod size_rw rw \<and>
               0 \<le> offset rw' \<and> offset rw' < size_rw rw' \<and>
               size_rw rw' = size_rw rw \<and> size_w (win rw') = size_w (win rw) \<and>
               interval rw' = interval rw \<and> ignoreCurrent rw' = ignoreCurrent rw"
    using c n
    by (simp add: updateOffset_unfold [OF assms pos] length_reset_slots nth_reset_slots)
qed

lemma valid_sample_rw: "valid sample_rw"
  by (simp add: valid_def sample_rw_def)

lemma span_sample_rw: "span sample_rw 250 = Inr 2"
  by (simp add: span_def go_div_def Since_def sample_rw_def)

theorem updateOffset_resets_span_buckets_witness:
  "valid sample_rw \<and> span sample_rw 250 = Inr 2 \<and>
   (\<exists>rw'. updateOffset sample_rw 250 260 = Inr rw' \<and> offset rw' = 1 \<and>
      buckets (win rw') = [\<lparr>Sum = 0, Count = 0\<rparr>, \<lparr>Sum = 0, Count = 0\<rparr>, \<lparr>Sum = 9, Count = 4\<rparr>])"
proof -
  from updateOffset_resets_span_buckets [OF valid_sample_rw span_sample_rw, of 260]
  obtain rw' where u: "updateOffset sample_rw 250 260 = Inr rw'"
    and off: "offset rw' = (offset sample_rw + 2) mod size_rw sample_rw"
    by auto
  have "updateOffset sample_rw 250 260 =
          Inr (sample_rw\<lparr>win := (win sample_rw)\<lparr>buckets :=
                 [\<lparr>Sum = 0, Count = 0\<rparr>, \<lparr>Sum = 0, Count = 0\<rparr>, \<lparr>Sum = 9, Count = 4\<rparr>]\<rparr>,
               offset := 1, lastTime := 200\<rparr>)"
    by (simp add: updateOffset_unfold [OF valid_sample_rw span_sample_rw] upto_rec1
        Bucket_reset_eq signed_modulo_int_def)
       (simp add: sample_rw_def)
  with u off show ?thesis
    using valid_sample_rw span_sample_rw by (auto simp: sample_rw_def)
qed

subsection \<open>Reduce\<close>

lemma length_visit_slots: "length (fst (visit_slots fn ks bs s)) = length bs"
  by (induction ks arbitrary: bs s) (auto split: prod.splits)

lemma window_reduce_ok:
  "size_w w = n \<Longrightarrow> int (length (buckets w)) = n \<Longrightarrow> 0 < n \<Longrightarrow> 0 \<le> start \<Longrightarrow> 0 \<le> i \<Longrightarrow>
   window_reduce w start count fn i s =
     Inr (case visit_slots fn (map (\<lambda>k. nat ((start + k) mod n)) [i..count - 1]) (buckets w) s of
            (bs', s') \<Rightarrow> (w\<lparr>buckets := bs'\<rparr>, s'))"
proof (induction w start count fn i s rule: window_reduce.induct)
  case (1 w start count fn i s)
  show ?case
  proof (cases "i < count")
    case False
    then show ?thesis by (simp add: window_reduce.simps [of w start count fn i s])
  next
    case True
    let ?k = "nat ((start + i) mod n)"
    obtain b' s' where f: "fn ?k (buckets w ! ?k) s = (b', s')"
      by (cases "fn ?k (buckets w ! ?k) s")
    let ?w' = "w\<lparr>buckets := (buckets w)[?k := b']\<rparr>"
    have ba: "bucket_at w (start + i) = Inr ?k"
      using 1 by (simp add: bucket_at_ok)
    have ih: "window_reduce ?w' start count fn (i + 1) s' =
      Inr (case visit_slots fn (map (\<lambda>k. nat ((start + k) mod n)) [i + 1..count - 1]) (buckets ?w') s' of
            (bs', s'') \<Rightarrow> (?w'\<lparr>buckets := bs'\<rparr>, s''))"
      using 1 by (intro "1.IH"[OF True ba f[symmetric]]) auto
    have up: "[i..count - 1] = i # [i + 1..count - 1]"
      using True by (simp add: upto_rec1)
    show ?thesis
      using True ba f ih up
      by (simp add: window_reduce.simps [of w start count fn i s])
  qed
qed

lemma visit_slots_non_mutating:
  "non_mutating fn \<Longrightarrow> fst (visit_slots fn ks bs s) = bs"
proof (induction ks arbitrary: bs s)
  case Nil
  then show ?case by simp
next
  case (Cons k ks)
  obtain b' s' where f: "fn k (bs ! k) s = (b', s')"
    by (cases "fn k (bs ! k) s")
  with Cons.prems have "b' = bs ! k"
    by (metis fst_conv non_mutating_def)
  with f Cons show ?case by simp
qed

lemma Reduce_unfold:
  assumes v: "valid rw" and sp: "span rw now = Inr sp"
  shows "Reduce rw now fn s =
           Inr (case visit_slots fn (reduce_slots rw sp) (buckets (win rw)) s of
                  (bs', s') \<Rightarrow> (rw\<lparr>win := (win rw)\<lparr>buckets := bs'\<rparr>\<rparr>, s'))"
proof (cases "0 < reduce_diff rw sp")
  case False
  then have "reduce_slots rw sp = []" by (simp add: reduce_slots_def)
  with False sp show ?thesis
    by (simp add: Reduce_def reduce_diff_def Let_def)
next
  case True
  have n: "0 < size_rw rw" using v by (simp add: valid_def)
  have sp0: "0 \<le> sp" using span_range [OF sp] v by (simp add: valid_def)
  let ?start = "(offset rw + sp + 1) mod size_rw rw"
  have gm: "go_mod (offset rw + sp + 1) (size_rw rw) = Inr ?start"
    using v sp0 by (intro go_mod_nonneg) (auto simp: valid_def)
  have wr: "window_reduce (win rw) ?start (reduce_diff rw sp) fn 0 s =
     Inr (case visit_slots fn (map (\<lambda>k. nat ((?start + k) mod size_rw rw)) [0..reduce_diff rw sp - 1])
                 (buckets (win rw)) s of
            (bs', s') \<Rightarrow> ((win rw)\<lparr>buckets := bs'\<rparr>, s'))"
    using v n by (intro window_reduce_ok) (auto simp: valid_def)
  have sl: "map (\<lambda>k. nat ((?start + k) mod size_rw rw)) [0..reduce_diff rw sp - 1] = reduce_slots rw sp"
    by (simp add: reduce_slots_def mod_add_left_eq)
  show ?thesis
    using True sp gm wr sl
    by (simp add: Reduce_def reduce_diff_def [symmetric] Let_def split: prod.splits)
qed

lemma visit_slots_record_visit:
  "visit_slots record_visit ks bs t = (bs, t @ map (\<lambda>k. (k, bs ! k)) ks)"
  by (induction ks arbitrary: bs t) (auto simp: record_visit_def)

lemma distinct_reduce_slots:
  assumes v: "valid rw" and s: "span rw now = Inr s"
  shows "distinct (reduce_slots rw s)"
proof -
  have n: "0 < size_rw rw" using v by (simp add: valid_def)
  have s0: "0 \<le> s" using span_range [OF s] v by (simp add: valid_def)
  have le: "reduce_diff rw s \<le> size_rw rw"
    using s0 by (simp add: reduce_diff_def)
  have "inj_on (\<lambda>i. nat ((offset rw + s + i + 1) mod size_rw rw)) {0..reduce_diff rw s - 1}"
    using ring_slots_inj [OF n le, of "offset rw + s"] by simp
  then have "inj_on (\<lambda>i. nat ((offset rw + s + 1 + i) mod size_rw rw)) (set [0..reduce_diff rw s - 1])"
    by (simp add: add.assoc add.commute [of 1])
  then show ?thesis
    by (simp add: reduce_slots_def distinct_map)
qed

text \<open>
  C3: on an instance that satisfies the structural invariant, with \<open>s\<close> the value of
  \<open>span()\<close>, \<open>Reduce\<close> takes \<open>diff = size - 1\<close> when \<open>s = 0\<close> and \<open>ignoreCurrent\<close> is
  set and \<open>diff = size - s\<close> otherwise, and calls the visitor on the \<open>diff\<close> slots
  \<open>(offset + s + 1 + i) mod size\<close>, \<open>i\<close> from \<open>0\<close> to \<open>diff - 1\<close>, in this order, which
  are \<open>diff\<close> different slots, and on nothing when \<open>diff \<le> 0\<close>. The logging visitor shows
  the calls one by one.
\<close>

theorem Reduce_visits_live_buckets:
  assumes "valid rw" and "span rw now = Inr s"
  shows "let diff = (if s = 0 \<and> ignoreCurrent rw then size_rw rw - 1 else size_rw rw - s);
             slots = map (\<lambda>i. nat ((offset rw + s + 1 + i) mod size_rw rw)) [0..diff - 1]
         in length slots = nat diff \<and> distinct slots \<and> (diff \<le> 0 \<longrightarrow> slots = []) \<and>
            Reduce rw now fn st =
              Inr (case visit_slots fn slots (buckets (win rw)) st of
                     (bs', st') \<Rightarrow> (rw\<lparr>win := (win rw)\<lparr>buckets := bs'\<rparr>\<rparr>, st')) \<and>
            Reduce rw now record_visit [] =
              Inr (rw, map (\<lambda>k. (k, buckets (win rw) ! k)) slots)"
  using Reduce_unfold [OF assms, of fn st] Reduce_unfold [OF assms, of record_visit "[]"]
    distinct_reduce_slots [OF assms]
  by (simp add: Let_def reduce_slots_def reduce_diff_def visit_slots_record_visit)

theorem Reduce_visits_live_buckets_witness:
  "valid sample_rw \<and> span sample_rw 110 = Inr 1 \<and>
   Reduce sample_rw 110 record_visit [] =
     Inr (sample_rw, [(1, \<lparr>Sum = 7, Count = 1\<rparr>), (2, \<lparr>Sum = 9, Count = 4\<rparr>)])"
proof -
  have s: "span sample_rw 110 = Inr 1"
    by (simp add: span_def go_div_def Since_def sample_rw_def)
  have "[0..1] = [0, 1::int]" by (simp add: upto_rec1)
  then show ?thesis
    using Reduce_visits_live_buckets [OF valid_sample_rw s, of record_visit "[]"] valid_sample_rw s
    by (simp add: Let_def) (simp add: sample_rw_def record_visit_def)
qed

text \<open>
  C9: on an instance that satisfies the structural invariant, \<open>Reduce\<close> with a visitor
  that writes no bucket returns the state it was given: offset, lastTime and every
  bucket are as before (and with a zero interval it panics before it reads a bucket).
\<close>

theorem Reduce_keeps_state:
  assumes "valid rw" and "non_mutating fn"
  shows "(interval rw = 0 \<longrightarrow> Reduce rw now fn st = Inl DivideByZero) \<and>
         (interval rw \<noteq> 0 \<longrightarrow> (\<exists>st'. Reduce rw now fn st = Inr (rw, st')))"
proof (intro conjI impI)
  assume "interval rw = 0"
  then show "Reduce rw now fn st = Inl DivideByZero"
    by (simp add: Reduce_def span_zero_interval)
next
  assume "interval rw \<noteq> 0"
  then obtain s where s: "span rw now = Inr s"
    using span_Inr_iff by blast
  obtain bs' st' where vs: "visit_slots fn (reduce_slots rw s) (buckets (win rw)) st = (bs', st')"
    by (cases "visit_slots fn (reduce_slots rw s) (buckets (win rw)) st")
  with visit_slots_non_mutating [OF assms(2), of "reduce_slots rw s" "buckets (win rw)" st]
  have "bs' = buckets (win rw)" by simp
  with vs Reduce_unfold [OF assms(1) s, of fn st]
  show "\<exists>st'. Reduce rw now fn st = Inr (rw, st')" by simp
qed

theorem Reduce_keeps_state_witness:
  "valid sample_rw \<and> non_mutating (count_total :: (int, int) visitor) \<and> interval sample_rw \<noteq> 0 \<and>
   Reduce sample_rw 110 count_total 0 = Inr (sample_rw, 5)"
proof -
  have nm: "non_mutating (count_total :: (int, int) visitor)"
    by (simp add: non_mutating_def count_total_def)
  have s: "span sample_rw 110 = Inr 1"
    by (simp add: span_def go_div_def Since_def sample_rw_def)
  have "[0..1] = [0, 1::int]" by (simp add: upto_rec1)
  then have r: "Reduce sample_rw 110 count_total 0 = Inr (sample_rw, 5)"
    by (simp add: Reduce_unfold [OF valid_sample_rw s] reduce_slots_def reduce_diff_def)
       (simp add: sample_rw_def count_total_def)
  from Reduce_keeps_state [OF valid_sample_rw nm, of 110 0] valid_sample_rw nm r
  show ?thesis by (simp add: sample_rw_def)
qed

subsection \<open>Add, construction and totality\<close>

lemma window_add_ok:
  "size_w w = n \<Longrightarrow> int (length (buckets w)) = n \<Longrightarrow> 0 \<le> a \<Longrightarrow> a < n \<Longrightarrow>
   window_add w a v =
     Inr (w\<lparr>buckets := (buckets w)[nat a := Bucket_add (buckets w ! nat a) v]\<rparr>)"
  by (simp add: window_add_def bucket_at_ok)

lemma updateOffset_valid:
  assumes "valid rw" and "updateOffset rw now1 now2 = Inr rw'"
  shows "valid rw' \<and> interval rw' = interval rw \<and> size_rw rw' = size_rw rw \<and>
         ignoreCurrent rw' = ignoreCurrent rw"
proof -
  from assms(2) obtain s where s: "span rw now1 = Inr s"
    by (cases "span rw now1") (auto simp: updateOffset_def)
  show ?thesis
  proof (cases "0 < s")
    case True
    have "0 < size_rw rw" using assms(1) by (simp add: valid_def)
    then show ?thesis
      using assms updateOffset_unfold [OF assms(1) s True, of now2]
      by (auto simp: valid_def length_reset_slots)
  next
    case False
    then show ?thesis
      using assms s by (simp add: updateOffset_def)
  qed
qed

lemma updateOffset_total:
  assumes "valid rw" and "interval rw \<noteq> 0"
  shows "\<exists>rw'. updateOffset rw now1 now2 = Inr rw'"
proof -
  from assms(2) obtain s where s: "span rw now1 = Inr s"
    using span_Inr_iff by blast
  show ?thesis
    using updateOffset_unfold [OF assms(1) s, of now2] updateOffset_idle [OF s, of now2]
    by (cases "0 < s") auto
qed

lemma Add_unfold:
  assumes "valid rw" and "updateOffset rw now1 now2 = Inr rw'"
  shows "Add rw now1 now2 v =
           Inr (rw'\<lparr>win := (win rw')\<lparr>buckets :=
                  (buckets (win rw'))[nat (offset rw') :=
                     Bucket_add (buckets (win rw') ! nat (offset rw')) v]\<rparr>\<rparr>)"
proof -
  have v': "valid rw'" using updateOffset_valid [OF assms] by simp
  then have "window_add (win rw') (offset rw') v =
      Inr ((win rw')\<lparr>buckets := (buckets (win rw'))[nat (offset rw') :=
                     Bucket_add (buckets (win rw') ! nat (offset rw')) v]\<rparr>)"
    by (intro window_add_ok) (auto simp: valid_def)
  with assms(2) show ?thesis by (simp add: Add_def)
qed

lemma Add_valid:
  assumes "valid rw" and "Add rw now1 now2 v = Inr rw'"
  shows "valid rw' \<and> interval rw' = interval rw \<and> size_rw rw' = size_rw rw \<and>
         ignoreCurrent rw' = ignoreCurrent rw"
proof -
  from assms(2) obtain rw1 where u: "updateOffset rw now1 now2 = Inr rw1"
    by (cases "updateOffset rw now1 now2") (auto simp: Add_def)
  from updateOffset_valid [OF assms(1) u] Add_unfold [OF assms(1) u, of v] assms(2)
  show ?thesis by (auto simp: valid_def)
qed

lemma Add_total:
  assumes "valid rw" and "interval rw \<noteq> 0"
  shows "\<exists>rw'. Add rw now1 now2 v = Inr rw'"
  using updateOffset_total [OF assms, of now1 now2] Add_unfold [OF assms(1)] by blast

lemma Add_zero_interval: "interval rw = 0 \<Longrightarrow> Add rw now1 now2 v = Inl DivideByZero"
  by (simp add: Add_def updateOffset_def span_zero_interval)

lemma Reduce_zero_interval: "interval rw = 0 \<Longrightarrow> Reduce rw now fn st = Inl DivideByZero"
  by (simp add: Reduce_def span_zero_interval)

lemma Reduce_valid:
  assumes "valid rw" and "Reduce rw now fn st = Inr (rw', st')"
  shows "valid rw' \<and> interval rw' = interval rw \<and> size_rw rw' = size_rw rw \<and>
         ignoreCurrent rw' = ignoreCurrent rw \<and> offset rw' = offset rw \<and>
         lastTime rw' = lastTime rw"
proof -
  from assms(2) obtain s where s: "span rw now = Inr s"
    by (cases "span rw now") (auto simp: Reduce_def)
  obtain bs' st'' where vs: "visit_slots fn (reduce_slots rw s) (buckets (win rw)) st = (bs', st'')"
    by (cases "visit_slots fn (reduce_slots rw s) (buckets (win rw)) st")
  have "length bs' = length (buckets (win rw))"
    using length_visit_slots [of fn "reduce_slots rw s" "buckets (win rw)" st] vs by simp
  then show ?thesis
    using assms Reduce_unfold [OF assms(1) s, of fn st] vs by (auto simp: valid_def)
qed

lemma Reduce_total:
  assumes "valid rw" and "interval rw \<noteq> 0"
  shows "\<exists>rw' st'. Reduce rw now fn st = Inr (rw', st')"
proof -
  from assms(2) obtain s where s: "span rw now = Inr s"
    using span_Inr_iff by blast
  show ?thesis
    using Reduce_unfold [OF assms(1) s, of fn st] by (auto split: prod.splits)
qed

lemma fold_IgnoreCurrentBucket:
  "set opts \<subseteq> {IgnoreCurrentBucket} \<Longrightarrow>
   fold (\<lambda>opt w. opt w) opts rw = rw\<lparr>ignoreCurrent := (ignoreCurrent rw \<or> opts \<noteq> [])\<rparr>"
  by (induction opts arbitrary: rw) (auto simp: IgnoreCurrentBucket_def)

lemma newWindow_ok: "0 \<le> n \<Longrightarrow> n \<le> maxLen \<Longrightarrow> newWindow maxLen n = Inr (fresh_window n)"
  by (simp add: newWindow_def fresh_window_def)

lemma newWindow_too_long: "maxLen < n \<Longrightarrow> newWindow maxLen n = Inl MakeSliceLenOutOfRange"
  by (simp add: newWindow_def)

lemma NewRollingWindow_ok:
  assumes "1 \<le> n" and "n \<le> maxLen" and "set opts \<subseteq> {IgnoreCurrentBucket}"
  shows "NewRollingWindow maxLen n ival opts now =
           Inr \<lparr>size_rw = n, win = fresh_window n, interval = ival, offset = 0,
                ignoreCurrent = (opts \<noteq> []), lastTime = now\<rparr>"
  using assms by (simp add: NewRollingWindow_def newWindow_ok fold_IgnoreCurrentBucket)

lemma NewRollingWindow_too_long:
  "1 \<le> n \<Longrightarrow> maxLen < n \<Longrightarrow>
   NewRollingWindow maxLen n ival opts now = Inl MakeSliceLenOutOfRange"
  by (simp add: NewRollingWindow_def newWindow_too_long)

lemma NewRollingWindow_valid:
  assumes "1 \<le> n" and "set opts \<subseteq> {IgnoreCurrentBucket}"
  shows "valid \<lparr>size_rw = n, win = fresh_window n, interval = ival, offset = 0,
                ignoreCurrent = (opts \<noteq> []), lastTime = now\<rparr>"
  using assms by (simp add: valid_def fresh_window_def)

lemma smod_sdiv_zero: "b \<noteq> 0 \<Longrightarrow> (a smod b) sdiv b = (0::int)"
proof -
  assume b: "b \<noteq> 0"
  have "\<bar>a smod b\<bar> < \<bar>b\<bar>"
    using smod_int_range [OF b, of a] by auto
  then have "\<bar>a smod b\<bar> div \<bar>b\<bar> = 0"
    by (simp add: div_pos_pos_trivial)
  then show ?thesis by (simp add: signed_divide_int_def)
qed

text \<open>After an \<open>Add\<close> that read the clock at \<open>t\<close> twice, the span at \<open>t\<close> is 0.\<close>

lemma span_after_Add:
  assumes v: "valid rw" and iv: "interval rw \<noteq> 0" and a: "Add rw t t x = Inr rw'"
  shows "span rw' t = Inr 0"
proof -
  obtain s where s: "span rw t = Inr s" using iv span_Inr_iff by blast
  have n: "1 \<le> size_rw rw" using v by (simp add: valid_def)
  from a obtain rw1 where u: "updateOffset rw t t = Inr rw1"
    by (cases "updateOffset rw t t") (auto simp: Add_def)
  have a': "lastTime rw' = lastTime rw1 \<and> interval rw' = interval rw \<and> size_rw rw' = size_rw rw"
    using Add_unfold [OF v u, of x] a updateOffset_valid [OF v u] by auto
  show ?thesis
  proof (cases "0 < s")
    case True
    have "lastTime rw1 = t - (t - lastTime rw) smod interval rw"
      using updateOffset_unfold [OF v s True, of t] u by auto
    then have "(t - lastTime rw') sdiv interval rw' = 0"
      using a' iv by (simp add: smod_sdiv_zero)
    then show ?thesis
      using a' iv n by (simp add: span_cases Let_def)
  next
    case False
    then have s0: "s = 0" using span_range [OF s n] by simp
    have "rw1 = rw" using u s False by (simp add: updateOffset_def)
    then have "span rw' t = span rw t"
      using a' iv by (auto simp: span_cases Let_def)
    with s s0 show ?thesis by simp
  qed
qed

text \<open>
  C6: on an instance with \<open>ignoreCurrent\<close> set (and a non-zero interval), \<open>Add\<close> followed
  by \<open>Reduce\<close> at the same clock reading calls the visitor on the \<open>size - 1\<close> slots
  \<open>(offset + 1 + i) mod size\<close>, and the active slot \<open>offset\<close>, just written, is not
  one of them.
\<close>

theorem ignoreCurrent_skips_active_bucket:
  assumes "valid rw" and "ignoreCurrent rw" and "interval rw \<noteq> 0"
  shows "\<exists>rw'. Add rw t t v = Inr rw' \<and>
           (let slots = map (\<lambda>i. nat ((offset rw' + 1 + i) mod size_rw rw')) [0..size_rw rw' - 2]
            in length slots = nat (size_rw rw' - 1) \<and>
               nat (offset rw') \<notin> set slots \<and>
               Reduce rw' t fn st =
                 Inr (case visit_slots fn slots (buckets (win rw')) st of
                        (bs', st') \<Rightarrow> (rw'\<lparr>win := (win rw')\<lparr>buckets := bs'\<rparr>\<rparr>, st')) \<and>
               Reduce rw' t record_visit [] =
                 Inr (rw', map (\<lambda>k. (k, buckets (win rw') ! k)) slots))"
proof -
  obtain rw' where a: "Add rw t t v = Inr rw'"
    using Add_total [OF assms(1,3)] by blast
  have v': "valid rw'" and ig: "ignoreCurrent rw'"
    using Add_valid [OF assms(1) a] assms(2) by simp_all
  have s: "span rw' t = Inr 0" by (rule span_after_Add [OF assms(1,3) a])
  let ?n = "size_rw rw'"
  let ?slots = "map (\<lambda>i. nat ((offset rw' + 1 + i) mod ?n)) [0..?n - 2]"
  have rs: "reduce_slots rw' 0 = ?slots"
    using ig by (simp add: reduce_slots_def reduce_diff_def)
  have n: "0 < ?n" and o: "0 \<le> offset rw'" "offset rw' < ?n"
    using v' by (simp_all add: valid_def)
  have notin: "nat (offset rw') \<notin> set ?slots"
  proof
    assume "nat (offset rw') \<in> set ?slots"
    then obtain i where i: "0 \<le> i" "i \<le> ?n - 2"
      and eq: "nat (offset rw') = nat ((offset rw' + 1 + i) mod ?n)"
      by auto
    have "0 \<le> (offset rw' + 1 + i) mod ?n" using n by simp
    with eq o have "(offset rw' + 1 + i) mod ?n = offset rw'"
      by linarith
    with o have "(offset rw' + 1 + i) mod ?n = offset rw' mod ?n"
      by simp
    then have "?n dvd ((offset rw' + 1 + i) - offset rw')"
      by (simp only: mod_eq_dvd_iff)
    then have "?n dvd (1 + i)" by simp
    moreover have "\<bar>1 + i\<bar> < ?n" using i by simp
    ultimately have "1 + i = 0" by (rule dvd_small_zero)
    with i show False by simp
  qed
  have "length ?slots = nat (?n - 1)" by simp
  with a notin rs Reduce_unfold [OF v' s, of fn st] Reduce_unfold [OF v' s, of record_visit "[]"]
  show ?thesis
    by (simp add: Let_def visit_slots_record_visit)
qed

lemma fresh_window_3: "(fresh_window 3 :: 'a::zero window) =
  \<lparr>buckets = [\<lparr>Sum = 0, Count = 0\<rparr>, \<lparr>Sum = 0, Count = 0\<rparr>, \<lparr>Sum = 0, Count = 0\<rparr>], size_w = 3\<rparr>"
  by (simp add: fresh_window_def numeral_3_eq_3)

lemma wrap64_1: "wrap64 1 = 1"
  by (simp add: wrap64_def)

lemma valid_ignoring_rw: "valid ignoring_rw"
  by (simp add: valid_def ignoring_rw_def fresh_window_3)

lemma Add_ignoring_rw:
  "Add ignoring_rw 30 30 1 =
     Inr (ignoring_rw\<lparr>win := \<lparr>buckets = [\<lparr>Sum = 1, Count = 1\<rparr>, \<lparr>Sum = 0, Count = 0\<rparr>,
                                          \<lparr>Sum = 0, Count = 0\<rparr>], size_w = 3\<rparr>\<rparr>)"
proof -
  have s: "span ignoring_rw 30 = Inr 0"
    by (simp add: span_def go_div_def Since_def ignoring_rw_def)
  have u: "updateOffset ignoring_rw 30 30 = Inr ignoring_rw"
    using s by (simp add: updateOffset_idle)
  show ?thesis
    by (simp add: Add_unfold [OF valid_ignoring_rw u])
       (simp add: ignoring_rw_def fresh_window_3 Bucket_add_def wrap64_1)
qed

theorem ignoreCurrent_skips_active_bucket_witness:
  "NewRollingWindow (2 ^ 45) 3 100 [IgnoreCurrentBucket] 0 = Inr ignoring_rw \<and>
   valid ignoring_rw \<and> ignoreCurrent ignoring_rw \<and> interval ignoring_rw \<noteq> 0 \<and>
   (\<exists>rw'. Add ignoring_rw 30 30 1 = Inr rw' \<and>
      Reduce rw' 30 record_visit [] =
        Inr (rw', [(1, \<lparr>Sum = 0, Count = 0\<rparr>), (2, \<lparr>Sum = 0, Count = 0\<rparr>)]))"
proof -
  have new: "NewRollingWindow (2 ^ 45) 3 100 [IgnoreCurrentBucket] 0 = Inr ignoring_rw"
    by (simp add: NewRollingWindow_def newWindow_ok IgnoreCurrentBucket_def ignoring_rw_def)
  have ig: "ignoreCurrent ignoring_rw" and iv: "interval ignoring_rw \<noteq> 0"
    by (simp_all add: ignoring_rw_def)
  have up: "[0..1] = [0, 1::int]" by (simp add: upto_rec1)
  from ignoreCurrent_skips_active_bucket [OF valid_ignoring_rw ig iv, of 30 1 record_visit "[]"]
  have "\<exists>rw'. Add ignoring_rw 30 30 1 = Inr rw' \<and>
      Reduce rw' 30 record_visit [] =
        Inr (rw', [(1, \<lparr>Sum = 0, Count = 0\<rparr>), (2, \<lparr>Sum = 0, Count = 0\<rparr>)])"
    by (simp add: Add_ignoring_rw Let_def)
       (simp add: ignoring_rw_def up record_visit_def)
  with new valid_ignoring_rw ig iv show ?thesis by simp
qed

text \<open>
  C8, as the code has it: \<open>NewRollingWindow\<close> panics for \<open>size < 1\<close>, and for a size
  that is more than the runtime can allocate (in \<open>make\<close>); it returns an instance for
  every other size, and this instance satisfies the structural invariant. On such an
  instance with a non-zero interval (callers have to pass a positive one), \<open>Add\<close> and
  \<open>Reduce\<close> return for every value, every visitor and every clock reading, and the
  instance they return satisfies the same.
\<close>

theorem construction_and_totality:
  fixes rw :: "'a::{zero,plus} RollingWindow" and opts :: "'b::zero RollingWindowOption list"
  shows
  "(n < 1 \<longrightarrow> NewRollingWindow maxLen n ival opts t0 = Inl SizeMustBeGreaterThanZero) \<and>
   (1 \<le> n \<and> maxLen < n \<longrightarrow>
      NewRollingWindow maxLen n ival opts t0 = Inl MakeSliceLenOutOfRange) \<and>
   (1 \<le> n \<and> n \<le> maxLen \<and> set opts \<subseteq> {IgnoreCurrentBucket} \<longrightarrow>
      (\<exists>rw0. NewRollingWindow maxLen n ival opts t0 = Inr rw0 \<and> valid rw0 \<and>
         interval rw0 = ival)) \<and>
   (valid rw \<and> interval rw \<noteq> 0 \<longrightarrow>
      (\<exists>rw'. Add rw now1 now2 v = Inr rw' \<and> valid rw' \<and> interval rw' = interval rw) \<and>
      (\<exists>rw' st'. Reduce rw now fn st = Inr (rw', st') \<and> valid rw' \<and>
         interval rw' = interval rw))"
proof (intro conjI impI)
  assume "n < 1"
  then show "NewRollingWindow maxLen n ival opts t0 = Inl SizeMustBeGreaterThanZero"
    by (simp add: NewRollingWindow_def)
next
  assume "1 \<le> n \<and> maxLen < n"
  then show "NewRollingWindow maxLen n ival opts t0 = Inl MakeSliceLenOutOfRange"
    by (simp add: NewRollingWindow_too_long)
next
  assume h: "1 \<le> n \<and> n \<le> maxLen \<and> set opts \<subseteq> {IgnoreCurrentBucket}"
  then show "\<exists>rw0. NewRollingWindow maxLen n ival opts t0 = Inr rw0 \<and> valid rw0 \<and>
         interval rw0 = ival"
    using NewRollingWindow_ok [of n maxLen opts ival t0]
      NewRollingWindow_valid [of n opts ival t0]
    by simp
next
  assume h: "valid rw \<and> interval rw \<noteq> 0"
  then obtain rw' where a: "Add rw now1 now2 v = Inr rw'"
    using Add_total [of rw now1 now2 v] by auto
  with h Add_valid [of rw now1 now2 v rw']
  show "\<exists>rw'. Add rw now1 now2 v = Inr rw' \<and> valid rw' \<and> interval rw' = interval rw"
    by simp
next
  assume h: "valid rw \<and> interval rw \<noteq> 0"
  then obtain rw' st' where r: "Reduce rw now fn st = Inr (rw', st')"
    using Reduce_total [of rw now fn st] by auto
  with h Reduce_valid [of rw now fn st rw' st']
  show "\<exists>rw' st'. Reduce rw now fn st = Inr (rw', st') \<and> valid rw' \<and>
         interval rw' = interval rw"
    by simp
qed

theorem construction_and_totality_witness:
  "(0::int) < 1 \<and>
   NewRollingWindow (2 ^ 45) 0 100 [] 0 =
     (Inl SizeMustBeGreaterThanZero :: panic + int RollingWindow) \<and>
   (1::int) \<le> 2 ^ 62 \<and> (2 ^ 45 :: int) < 2 ^ 62 \<and>
   NewRollingWindow (2 ^ 45) (2 ^ 62) 100 [] 0 =
     (Inl MakeSliceLenOutOfRange :: panic + int RollingWindow) \<and>
   (1::int) \<le> 3 \<and> (3::int) \<le> 2 ^ 45 \<and>
   set [IgnoreCurrentBucket :: int RollingWindowOption] \<subseteq> {IgnoreCurrentBucket} \<and>
   (\<exists>rw0 :: int RollingWindow.
      NewRollingWindow (2 ^ 45) 3 100 [IgnoreCurrentBucket] 0 = Inr rw0 \<and> valid rw0) \<and>
   valid ignoring_rw \<and> interval ignoring_rw \<noteq> 0 \<and>
   (\<exists>rw'. Add ignoring_rw 30 30 1 = Inr rw' \<and> valid rw') \<and>
   (\<exists>rw' st'. Reduce ignoring_rw 30 count_total 0 = Inr (rw', st') \<and> valid rw')"
proof -
  have iv: "interval ignoring_rw \<noteq> 0" by (simp add: ignoring_rw_def)
  from construction_and_totality
         [of 0 "2 ^ 45" 100 "[] :: int RollingWindowOption list" 0 ignoring_rw 30 30 1 30
             count_total 0]
       construction_and_totality
         [of "2 ^ 62" "2 ^ 45" 100 "[] :: int RollingWindowOption list" 0 ignoring_rw 30 30 1 30
             count_total 0]
       construction_and_totality
         [of 3 "2 ^ 45" 100 "[IgnoreCurrentBucket :: int RollingWindowOption]" 0 ignoring_rw
             30 30 1 30 count_total 0]
       valid_ignoring_rw iv
  show ?thesis by auto
qed

text \<open>
  C8 as it is stated fails for a size that the runtime does not grant: under the limit of
  \<open>2 ^ 45\<close> pointers of linux/amd64, \<open>NewRollingWindow(1 << 62, time.Second)\<close> passes the
  guard \<open>size < 1\<close> and panics in \<open>make\<close>.
\<close>

theorem size_beyond_limit_counterexample:
  "(1::int) \<le> 2 ^ 62 \<and>
   NewRollingWindow (2 ^ 45) (2 ^ 62) 1000000000 [] 0 =
     (Inl MakeSliceLenOutOfRange :: panic + int RollingWindow)"
  by (simp add: NewRollingWindow_def newWindow_def)

text \<open>
  With an interval of zero, which callers must not pass, \<open>span()\<close> divides by zero, so
  \<open>Add\<close> and \<open>Reduce\<close> panic on an instance that the constructor has returned.
\<close>

lemma zero_interval_panics:
  "NewRollingWindow (2 ^ 45) 1 0 [] 0 =
     Inr \<lparr>size_rw = 1, win = (fresh_window 1 :: int window), interval = 0, offset = 0,
          ignoreCurrent = False, lastTime = 0\<rparr> \<and>
   Add \<lparr>size_rw = 1, win = (fresh_window 1 :: int window), interval = 0, offset = 0,
        ignoreCurrent = False, lastTime = 0\<rparr> 0 0 1 = Inl DivideByZero \<and>
   Reduce \<lparr>size_rw = 1, win = (fresh_window 1 :: int window), interval = 0, offset = 0,
        ignoreCurrent = False, lastTime = 0\<rparr> 0 count_total (0::int) = Inl DivideByZero"
  by (simp add: NewRollingWindow_def newWindow_ok Add_zero_interval Reduce_zero_interval)

subsection \<open>Expiry and sliding\<close>

lemma Add_lastTime:
  assumes v: "valid rw" and a: "Add rw t1 t2 x = Inr rw'"
  shows "lastTime rw' = lastTime rw \<or>
         lastTime rw' = t2 - (t2 - lastTime rw) smod interval rw"
proof -
  from a obtain rw1 where u: "updateOffset rw t1 t2 = Inr rw1"
    by (cases "updateOffset rw t1 t2") (auto simp: Add_def)
  from u obtain s where s: "span rw t1 = Inr s"
    by (cases "span rw t1") (auto simp: updateOffset_def)
  have l: "lastTime rw' = lastTime rw1"
    using Add_unfold [OF v u, of x] a by auto
  show ?thesis
  proof (cases "0 < s")
    case True
    then show ?thesis
      using updateOffset_unfold [OF v s True, of t2] u l by auto
  next
    case False
    then have "rw1 = rw" using u s by (simp add: updateOffset_def)
    with l show ?thesis by simp
  qed
qed

text \<open>
  C4: a window of size 3 (which the runtime grants) with an interval of 100ms
  (\<open>time.Duration\<close> counts nanoseconds), made at \<open>t0\<close>, takes one \<open>Add\<close> whose clock readings are \<open>t1\<close> and
  \<open>t2\<close>. A \<open>Reduce\<close> at least 350ms after \<open>t2\<close> finds a span of 3, the size, and calls
  the visitor on no bucket: it reports no bucket at all, so none with the count 1 of the
  \<open>Add\<close>.
\<close>

theorem expired_window_is_not_visited:
  assumes "t0 \<le> t1" and "t1 \<le> t2" and "t2 + 350000000 \<le> now"
    and "set opts \<subseteq> {IgnoreCurrentBucket}" and "3 \<le> maxLen"
  shows "\<exists>rw0 rw1. NewRollingWindow maxLen 3 100000000 opts t0 = Inr rw0 \<and>
           Add rw0 t1 t2 v = Inr rw1 \<and>
           span rw1 now = Inr 3 \<and>
           Reduce rw1 now fn st = Inr (rw1, st) \<and>
           Reduce rw1 now record_visit [] = Inr (rw1, [])"
proof -
  let ?rw0 = "\<lparr>size_rw = 3, win = fresh_window 3, interval = 100000000, offset = 0,
                ignoreCurrent = (opts \<noteq> []), lastTime = t0\<rparr>"
  have new: "NewRollingWindow maxLen 3 100000000 opts t0 = Inr ?rw0"
    using assms(4,5) by (intro NewRollingWindow_ok) simp_all
  have v0: "valid ?rw0"
    using assms(4) by (intro NewRollingWindow_valid) simp_all
  obtain rw1 where a: "Add ?rw0 t1 t2 v = Inr rw1"
    using Add_total [OF v0, of t1 t2 v] by auto
  have v1: "valid rw1" and iv: "interval rw1 = 100000000" and sz: "size_rw rw1 = 3"
    using Add_valid [OF v0 a] by simp_all
  have "0 \<le> (t2 - t0) smod 100000000"
    using assms(1,2) by (intro smod_int_compares(2)) simp_all
  with Add_lastTime [OF v0 a] assms(1,2) have lt: "lastTime rw1 \<le> t2"
    by auto
  with assms(3) have el: "300000000 \<le> now - lastTime rw1" by simp
  then have "300000000 div 100000000 \<le> (now - lastTime rw1) div (100000000::int)"
    by (intro zdiv_mono1) simp_all
  then have q: "3 \<le> (now - lastTime rw1) sdiv 100000000"
    using el by (simp add: sdiv_nonneg_eq_div)
  have s: "span rw1 now = Inr 3"
    using q iv sz by (simp add: span_cases Let_def)
  have rs: "reduce_slots rw1 3 = []"
    using sz by (simp add: reduce_slots_def reduce_diff_def)
  show ?thesis
    using new a s rs Reduce_unfold [OF v1 s, of fn st] Reduce_unfold [OF v1 s, of record_visit "[]"]
    by simp
qed

theorem expired_window_is_not_visited_witness:
  "(0::int) \<le> 0 \<and> (0::int) + 350000000 \<le> 350000000 \<and>
   set ([] :: int RollingWindowOption list) \<subseteq> {IgnoreCurrentBucket} \<and> (3::int) \<le> 2 ^ 45 \<and>
   (\<exists>rw0 rw1. NewRollingWindow (2 ^ 45) 3 100000000 [] 0 = Inr rw0 \<and>
      Add rw0 0 0 (1::int) = Inr rw1 \<and>
      Reduce rw1 350000000 record_visit [] = Inr (rw1, []))"
  using expired_window_is_not_visited [of 0 0 0 350000000 "[] :: int RollingWindowOption list"
          "2 ^ 45" 1 record_visit "[]"]
  by auto

lemma fresh_window_5: "(fresh_window 5 :: 'a::zero window) =
  \<lparr>buckets = [\<lparr>Sum = 0, Count = 0\<rparr>, \<lparr>Sum = 0, Count = 0\<rparr>, \<lparr>Sum = 0, Count = 0\<rparr>,
              \<lparr>Sum = 0, Count = 0\<rparr>, \<lparr>Sum = 0, Count = 0\<rparr>], size_w = 5\<rparr>"
  by (simp add: fresh_window_def eval_nat_numeral)

lemma wrap64_small: "- (2 ^ 63) \<le> x \<Longrightarrow> x < 2 ^ 63 \<Longrightarrow> wrap64 x = x"
  by (simp add: wrap64_def)

lemma span_one_reset:
  assumes v: "valid rw" and two: "2 \<le> size_rw rw" and s: "span rw now1 = Inr 1"
  shows "\<exists>rw'. updateOffset rw now1 now2 = Inr rw' \<and>
           buckets (win rw') =
             (buckets (win rw))[nat ((offset rw + 1) mod size_rw rw) := \<lparr>Sum = 0, Count = 0\<rparr>] \<and>
           nat ((offset rw + 1) mod size_rw rw) \<noteq> nat (offset rw) \<and>
           buckets (win rw') ! nat (offset rw) = buckets (win rw) ! nat (offset rw) \<and>
           offset rw' = (offset rw + 1) mod size_rw rw"
proof -
  have o: "0 \<le> offset rw" "offset rw < size_rw rw" using v by (simp_all add: valid_def)
  have ne: "(offset rw + 1) mod size_rw rw \<noteq> offset rw"
  proof
    assume "(offset rw + 1) mod size_rw rw = offset rw"
    with o have "(offset rw + 1) mod size_rw rw = offset rw mod size_rw rw" by simp
    then have "size_rw rw dvd ((offset rw + 1) - offset rw)"
      by (simp only: mod_eq_dvd_iff)
    then have "size_rw rw dvd 1" by simp
    with two show False by simp
  qed
  have "0 \<le> (offset rw + 1) mod size_rw rw" using two by simp
  with ne o have ne': "nat ((offset rw + 1) mod size_rw rw) \<noteq> nat (offset rw)"
    by linarith
  have "[0..(1::int) - 1] = [0]" by (simp add: upto_rec1)
  then show ?thesis
    using updateOffset_unfold [OF v s, of now2] ne'
    by (simp add: Bucket_reset_eq)
qed

text \<open>
  C5: a window of size 5 (which the runtime grants) with an interval of 1s, made at \<open>t0\<close>, takes \<open>Add v\<close> at \<open>t0\<close>
  and \<open>Add v'\<close> one interval later. A \<open>Reduce\<close> at that time visits the slots 2, 3, 4, 0, 1
  and finds in slot 0 the bucket of the first \<open>Add\<close>. In general a slide with a span of 1
  on a window of size 5 resets the slot after the active one and nothing else, the
  bucket of the active slot in particular stays.
\<close>

theorem slide_keeps_previous_bucket:
  fixes v v' :: "'a::{zero,plus}" and rw :: "'b::zero RollingWindow"
  shows
  "(5 \<le> maxLen \<longrightarrow>
    (\<exists>rw0 rw1 rw2.
      NewRollingWindow maxLen 5 1000000000 [] t0 = Inr rw0 \<and>
      Add rw0 t0 t0 v = Inr rw1 \<and>
      Add rw1 (t0 + 1000000000) (t0 + 1000000000) v' = Inr rw2 \<and>
      Reduce rw2 (t0 + 1000000000) record_visit [] =
        Inr (rw2, [(2, \<lparr>Sum = 0, Count = 0\<rparr>), (3, \<lparr>Sum = 0, Count = 0\<rparr>),
                   (4, \<lparr>Sum = 0, Count = 0\<rparr>), (0, \<lparr>Sum = 0 + v, Count = 1\<rparr>),
                   (1, \<lparr>Sum = 0 + v', Count = 1\<rparr>)]))) \<and>
   (valid rw \<and> size_rw rw = 5 \<and> span rw now1 = Inr 1 \<longrightarrow>
      (\<exists>rw'. updateOffset rw now1 now2 = Inr rw' \<and>
         buckets (win rw') =
           (buckets (win rw))[nat ((offset rw + 1) mod 5) := \<lparr>Sum = 0, Count = 0\<rparr>] \<and>
         nat ((offset rw + 1) mod 5) \<noteq> nat (offset rw) \<and>
         buckets (win rw') ! nat (offset rw) = buckets (win rw) ! nat (offset rw)))"
proof (intro conjI impI)
  assume lim: "5 \<le> maxLen"
  let ?T = "1000000000 :: int"
  let ?z = "\<lparr>Sum = 0 :: 'a, Count = 0\<rparr>"
  let ?rw0 = "\<lparr>size_rw = 5, win = fresh_window 5, interval = ?T, offset = 0,
                ignoreCurrent = False, lastTime = t0\<rparr> :: 'a RollingWindow"
  let ?b0 = "\<lparr>Sum = 0 + v, Count = 1\<rparr>"
  let ?b1 = "\<lparr>Sum = 0 + v', Count = 1\<rparr>"
  let ?rw1 = "?rw0\<lparr>win := \<lparr>buckets = [?b0, ?z, ?z, ?z, ?z], size_w = 5\<rparr>\<rparr>"
  let ?rw2 = "\<lparr>size_rw = 5, win = \<lparr>buckets = [?b0, ?b1, ?z, ?z, ?z], size_w = 5\<rparr>,
                interval = ?T, offset = 1, ignoreCurrent = False, lastTime = t0 + ?T\<rparr>"
  have new: "NewRollingWindow maxLen 5 ?T [] t0 = Inr ?rw0"
    using lim by (simp add: NewRollingWindow_def newWindow_ok)
  have v0: "valid ?rw0" by (simp add: valid_def fresh_window_5)
  have s0: "span ?rw0 t0 = Inr 0"
    by (simp add: span_def go_div_def Since_def)
  have u0: "updateOffset ?rw0 t0 t0 = Inr ?rw0"
    using s0 by (simp add: updateOffset_idle)
  have a0: "Add ?rw0 t0 t0 v = Inr ?rw1"
    using Add_unfold [OF v0 u0, of v]
    by (simp add: fresh_window_5 Bucket_add_def wrap64_def)
  have v1: "valid ?rw1" by (simp add: valid_def)
  have s1: "span ?rw1 (t0 + ?T) = Inr 1"
    by (simp add: span_def go_div_def Since_def)
  have up0: "[0..(1::int) - 1] = [0]" by (simp add: upto_rec1)
  have u1: "updateOffset ?rw1 (t0 + ?T) (t0 + ?T) =
      Inr (\<lparr>size_rw = 5, win = \<lparr>buckets = [?b0, ?z, ?z, ?z, ?z], size_w = 5\<rparr>,
                interval = ?T, offset = 1, ignoreCurrent = False, lastTime = t0 + ?T\<rparr>)"
    using updateOffset_unfold [OF v1 s1, of "t0 + ?T"] up0
    by (simp add: Bucket_reset_eq)
  have a1: "Add ?rw1 (t0 + ?T) (t0 + ?T) v' = Inr ?rw2"
    using Add_unfold [OF v1 u1, of v']
    by (simp add: Bucket_add_def wrap64_def)
  have v2: "valid ?rw2" by (simp add: valid_def)
  have s2: "span ?rw2 (t0 + ?T) = Inr 0"
    by (simp add: span_def go_div_def Since_def)
  have up4: "[0..4] = [0, 1, 2, 3, 4::int]" by (simp add: upto_rec1)
  have r: "Reduce ?rw2 (t0 + ?T) record_visit [] =
      Inr (?rw2, [(2, ?z), (3, ?z), (4, ?z), (0, ?b0), (1, ?b1)])"
    using Reduce_unfold [OF v2 s2, of record_visit "[]"] up4
    by (simp add: reduce_slots_def reduce_diff_def record_visit_def)
  show "\<exists>rw0 rw1 rw2.
      NewRollingWindow maxLen 5 1000000000 [] t0 = Inr rw0 \<and>
      Add rw0 t0 t0 v = Inr rw1 \<and>
      Add rw1 (t0 + 1000000000) (t0 + 1000000000) v' = Inr rw2 \<and>
      Reduce rw2 (t0 + 1000000000) record_visit [] =
        Inr (rw2, [(2, \<lparr>Sum = 0, Count = 0\<rparr>), (3, \<lparr>Sum = 0, Count = 0\<rparr>),
                   (4, \<lparr>Sum = 0, Count = 0\<rparr>), (0, \<lparr>Sum = 0 + v, Count = 1\<rparr>),
                   (1, \<lparr>Sum = 0 + v', Count = 1\<rparr>)])"
    using new a0 a1 r by blast
next
  assume h: "valid rw \<and> size_rw rw = 5 \<and> span rw now1 = Inr 1"
  then have "2 \<le> size_rw rw" by simp
  with h span_one_reset [of rw now1 now2]
  show "\<exists>rw'. updateOffset rw now1 now2 = Inr rw' \<and>
         buckets (win rw') =
           (buckets (win rw))[nat ((offset rw + 1) mod 5) := \<lparr>Sum = 0, Count = 0\<rparr>] \<and>
         nat ((offset rw + 1) mod 5) \<noteq> nat (offset rw) \<and>
         buckets (win rw') ! nat (offset rw) = buckets (win rw) ! nat (offset rw)"
    by auto
qed

theorem slide_keeps_previous_bucket_witness:
  "(5::int) \<le> 2 ^ 45 \<and>
   (\<exists>rw0 rw1 rw2.
      NewRollingWindow (2 ^ 45) 5 1000000000 [] 0 = Inr rw0 \<and>
      Add rw0 0 0 (1::int) = Inr rw1 \<and>
      Add rw1 1000000000 1000000000 1 = Inr rw2 \<and>
      Reduce rw2 1000000000 record_visit [] =
        Inr (rw2, [(2, \<lparr>Sum = 0, Count = 0\<rparr>), (3, \<lparr>Sum = 0, Count = 0\<rparr>),
                   (4, \<lparr>Sum = 0, Count = 0\<rparr>), (0, \<lparr>Sum = 1, Count = 1\<rparr>),
                   (1, \<lparr>Sum = 1, Count = 1\<rparr>)])) \<and>
   valid five_rw \<and> size_rw five_rw = 5 \<and> span five_rw 1500000000 = Inr 1 \<and>
   (\<exists>rw'. updateOffset five_rw 1500000000 1500000000 = Inr rw' \<and>
      buckets (win rw') ! 0 = \<lparr>Sum = 0, Count = 0\<rparr> \<and>
      buckets (win rw') ! 4 = \<lparr>Sum = 9, Count = 4\<rparr>)"
proof -
  have v: "valid five_rw" by (simp add: valid_def five_rw_def)
  have z: "size_rw five_rw = 5" by (simp add: five_rw_def)
  have s: "span five_rw 1500000000 = Inr 1"
    by (simp add: span_def go_div_def Since_def five_rw_def)
  note both = slide_keeps_previous_bucket
                [of "2 ^ 45" 0 "1::int" "1::int" five_rw 1500000000 1500000000]
  have first: "\<exists>rw0 rw1 rw2.
      NewRollingWindow (2 ^ 45) 5 1000000000 [] 0 = Inr rw0 \<and>
      Add rw0 0 0 (1::int) = Inr rw1 \<and>
      Add rw1 1000000000 1000000000 1 = Inr rw2 \<and>
      Reduce rw2 1000000000 record_visit [] =
        Inr (rw2, [(2, \<lparr>Sum = 0, Count = 0\<rparr>), (3, \<lparr>Sum = 0, Count = 0\<rparr>),
                   (4, \<lparr>Sum = 0, Count = 0\<rparr>), (0, \<lparr>Sum = 1, Count = 1\<rparr>),
                   (1, \<lparr>Sum = 1, Count = 1\<rparr>)])"
    using both [THEN conjunct1] by simp
  from both [THEN conjunct2] v z s
  obtain rw' where u: "updateOffset five_rw 1500000000 1500000000 = Inr rw'"
    and b: "buckets (win rw') =
           (buckets (win five_rw))[nat ((offset five_rw + 1) mod 5) := \<lparr>Sum = 0, Count = 0\<rparr>]"
    by auto
  from b have "buckets (win rw') ! 0 = \<lparr>Sum = 0, Count = 0\<rparr>"
    and "buckets (win rw') ! 4 = \<lparr>Sum = 9, Count = 4\<rparr>"
    by (simp_all add: five_rw_def)
  with u v z s first show ?thesis by simp
qed

subsection \<open>Histories of calls\<close>

lemma aligned_step:
  fixes l :: int
  assumes "0 < ival" and "(l - t0) mod ival = 0" and "l \<le> n2"
  shows "(n2 - (n2 - l) smod ival - t0) mod ival = 0 \<and> n2 - (n2 - l) smod ival \<le> n2 \<and>
         l \<le> n2 - (n2 - l) smod ival \<and>
         (n2 - l) smod ival = (n2 - l) mod ival"
proof -
  have sm: "(n2 - l) smod ival = (n2 - l) mod ival"
    using assms by (intro smod_mod_positive) simp_all
  have d1: "ival dvd (l - t0)" using assms(2) by (simp add: mod_eq_0_iff_dvd)
  have d2: "ival dvd ((n2 - l) - (n2 - l) mod ival)" by (rule dvd_minus_mod)
  have "ival dvd ((l - t0) + ((n2 - l) - (n2 - l) mod ival))"
    using d1 d2 by (rule dvd_add)
  moreover have "(l - t0) + ((n2 - l) - (n2 - l) mod ival) = n2 - (n2 - l) mod ival - t0"
    by simp
  ultimately have "ival dvd (n2 - (n2 - l) mod ival - t0)" by simp
  then have 1: "(n2 - (n2 - l) mod ival - t0) mod ival = 0"
    by (simp add: mod_eq_0_iff_dvd)
  have 2: "0 \<le> (n2 - l) mod ival" using assms(1) by simp
  have 3: "(n2 - l) mod ival \<le> n2 - l"
    using assms by (intro zmod_le_nonneg_dividend) simp
  from sm 1 2 3 show ?thesis by simp
qed

lemma run_aligned:
  fixes rw :: "'a::{zero,plus} RollingWindow"
  assumes "valid rw" and "interval rw = ival" and "0 < ival"
    and "(lastTime rw - t0) mod ival = 0" and "t0 \<le> lastTime rw" and "lastTime rw \<le> T"
    and "sorted (T # clock_of cs)"
  shows "\<exists>rw'. run rw cs = Inr rw' \<and> valid rw' \<and> interval rw' = ival \<and>
           size_rw rw' = size_rw rw \<and>
           (lastTime rw' - t0) mod ival = 0 \<and> t0 \<le> lastTime rw' \<and>
           lastTime rw' \<le> last (T # clock_of cs)"
  using assms
proof (induction cs arbitrary: rw T)
  case Nil
  then show ?case by (simp add: clock_of_def)
next
  case (Cons c cs)
  have iv: "interval rw \<noteq> 0" using Cons.prems by simp
  show ?case
  proof (cases c)
    case (CallAdd n1 n2 v)
    have ord: "T \<le> n1" "n1 \<le> n2" "sorted (n2 # clock_of cs)"
      using Cons.prems(7) CallAdd by (auto simp: clock_of_def)
    obtain rw1 where a: "Add rw n1 n2 v = Inr rw1"
      using Add_total [OF Cons.prems(1) iv, of n1 n2 v] by auto
    have v1: "valid rw1" "interval rw1 = ival" "size_rw rw1 = size_rw rw"
      using Add_valid [OF Cons.prems(1) a] Cons.prems(2) by simp_all
    have le: "lastTime rw \<le> n2" using Cons.prems(6) ord by simp
    from Add_lastTime [OF Cons.prems(1) a] aligned_step [OF Cons.prems(3,4) le]
    have l1: "(lastTime rw1 - t0) mod ival = 0 \<and> t0 \<le> lastTime rw1 \<and> lastTime rw1 \<le> n2"
      using Cons.prems(2,4,5) le by auto
    have l1a: "(lastTime rw1 - t0) mod ival = 0" and l1b: "t0 \<le> lastTime rw1"
      and l1c: "lastTime rw1 \<le> n2" using l1 by simp_all
    from Cons.IH [OF v1(1,2) Cons.prems(3) l1a l1b l1c ord(3)]
    obtain rw' where r: "run rw1 cs = Inr rw' \<and> valid rw' \<and> interval rw' = ival \<and>
      size_rw rw' = size_rw rw1 \<and>
      (lastTime rw' - t0) mod ival = 0 \<and> t0 \<le> lastTime rw' \<and>
      lastTime rw' \<le> last (n2 # clock_of cs)" ..
    show ?thesis
      using r a v1 CallAdd by (simp add: clock_of_def)
  next
    case (CallReduce n fn st)
    have ord: "T \<le> n" "sorted (n # clock_of cs)"
      using Cons.prems(7) CallReduce by (auto simp: clock_of_def)
    obtain rw1 st1 where a: "Reduce rw n fn st = Inr (rw1, st1)"
      using Reduce_total [OF Cons.prems(1) iv, of n fn st] by auto
    have v1: "valid rw1" "interval rw1 = ival" "size_rw rw1 = size_rw rw"
      "lastTime rw1 = lastTime rw"
      using Reduce_valid [OF Cons.prems(1) a] Cons.prems(2) by simp_all
    have l1a: "(lastTime rw1 - t0) mod ival = 0" and l1b: "t0 \<le> lastTime rw1"
      and l1c: "lastTime rw1 \<le> n" using v1(4) Cons.prems(4,5,6) ord(1) by simp_all
    from Cons.IH [OF v1(1,2) Cons.prems(3) l1a l1b l1c ord(2)]
    obtain rw' where r: "run rw1 cs = Inr rw' \<and> valid rw' \<and> interval rw' = ival \<and>
      size_rw rw' = size_rw rw1 \<and>
      (lastTime rw' - t0) mod ival = 0 \<and> t0 \<le> lastTime rw' \<and>
      lastTime rw' \<le> last (n # clock_of cs)" ..
    show ?thesis
      using r a v1 CallReduce by (simp add: clock_of_def)
  qed
qed

text \<open>
  C7: with a positive interval and a clock that never goes back, after every history of
  calls on a window made at \<open>t0\<close> (of a size that the runtime grants) the difference \<open>lastTime - t0\<close> is a multiple of the
  interval and \<open>lastTime\<close> is not later than the latest clock reading (so not later than
  any \<open>now\<close> read afterwards). An \<open>updateOffset\<close> that slides sets \<open>lastTime\<close> to
  \<open>now - (now - lastTime) % interval\<close>, with \<open>now\<close> its second clock reading; when the
  interval is positive and \<open>lastTime \<le> now\<close> this is the mathematical \<open>mod\<close>, the last
  interval boundary at or before \<open>now\<close>.
\<close>

theorem lastTime_aligned:
  fixes rw :: "'a::zero RollingWindow" and cs :: "('b::{zero,plus}, 's) call list"
  shows
  "(1 \<le> n \<and> n \<le> maxLen \<and> 0 < ival \<and> set opts \<subseteq> {IgnoreCurrentBucket} \<and>
    sorted (t0 # clock_of cs) \<longrightarrow>
      (\<exists>rw0 rw'. NewRollingWindow maxLen n ival opts t0 = Inr rw0 \<and> run rw0 cs = Inr rw' \<and>
         (lastTime rw' - t0) mod ival = 0 \<and> lastTime rw' \<le> last (t0 # clock_of cs))) \<and>
   (valid rw \<and> span rw now1 = Inr s \<and> 0 < s \<longrightarrow>
      (\<exists>rw'. updateOffset rw now1 now2 = Inr rw' \<and>
         lastTime rw' = now2 - (now2 - lastTime rw) smod interval rw \<and>
         (0 < interval rw \<and> lastTime rw \<le> now2 \<longrightarrow>
            lastTime rw' = now2 - (now2 - lastTime rw) mod interval rw \<and>
            lastTime rw' \<le> now2 \<and> now2 < lastTime rw' + interval rw)))"
proof (intro conjI impI)
  assume h: "1 \<le> n \<and> n \<le> maxLen \<and> 0 < ival \<and> set opts \<subseteq> {IgnoreCurrentBucket} \<and>
    sorted (t0 # clock_of cs)"
  let ?rw0 = "\<lparr>size_rw = n, win = fresh_window n, interval = ival, offset = 0,
                ignoreCurrent = (opts \<noteq> []), lastTime = t0\<rparr> :: 'b RollingWindow"
  have new: "NewRollingWindow maxLen n ival opts t0 = Inr ?rw0"
    using h by (intro NewRollingWindow_ok) simp_all
  have v0: "valid ?rw0"
    using h by (intro NewRollingWindow_valid) simp_all
  have "\<exists>rw'. run ?rw0 cs = Inr rw' \<and> valid rw' \<and> interval rw' = ival \<and>
           size_rw rw' = size_rw ?rw0 \<and>
           (lastTime rw' - t0) mod ival = 0 \<and> t0 \<le> lastTime rw' \<and>
           lastTime rw' \<le> last (t0 # clock_of cs)"
    using v0 h by (intro run_aligned) simp_all
  then obtain rw' where "run ?rw0 cs = Inr rw'" "(lastTime rw' - t0) mod ival = 0"
    "lastTime rw' \<le> last (t0 # clock_of cs)"
    by (elim exE conjE)
  with new show "\<exists>rw0 rw'. NewRollingWindow maxLen n ival opts t0 = Inr rw0 \<and>
         run rw0 cs = Inr rw' \<and>
         (lastTime rw' - t0) mod ival = 0 \<and> lastTime rw' \<le> last (t0 # clock_of cs)"
    by auto
next
  assume h: "valid rw \<and> span rw now1 = Inr s \<and> 0 < s"
  then have u: "updateOffset rw now1 now2 =
           Inr (rw\<lparr>win := (win rw)\<lparr>buckets :=
                        reset_slots (map (\<lambda>k. nat ((offset rw + k + 1) mod size_rw rw)) [0..s - 1])
                          (buckets (win rw))\<rparr>,
                    offset := (offset rw + s) mod size_rw rw,
                    lastTime := now2 - (now2 - lastTime rw) smod interval rw\<rparr>)"
    by (intro updateOffset_unfold) simp_all
  have "0 < interval rw \<and> lastTime rw \<le> now2 \<longrightarrow>
          (now2 - lastTime rw) smod interval rw = (now2 - lastTime rw) mod interval rw \<and>
          now2 - (now2 - lastTime rw) mod interval rw \<le> now2 \<and>
          now2 < now2 - (now2 - lastTime rw) mod interval rw + interval rw"
    by (simp add: smod_mod_positive)
  with u show "\<exists>rw'. updateOffset rw now1 now2 = Inr rw' \<and>
         lastTime rw' = now2 - (now2 - lastTime rw) smod interval rw \<and>
         (0 < interval rw \<and> lastTime rw \<le> now2 \<longrightarrow>
            lastTime rw' = now2 - (now2 - lastTime rw) mod interval rw \<and>
            lastTime rw' \<le> now2 \<and> now2 < lastTime rw' + interval rw)"
    by simp
qed

theorem lastTime_aligned_witness:
  "(1::int) \<le> 3 \<and> (3::int) \<le> 2 ^ 45 \<and> (0::int) < 100 \<and>
   set ([] :: int RollingWindowOption list) \<subseteq> {IgnoreCurrentBucket} \<and>
   sorted (0 # clock_of [CallAdd 30 30 (1::int), CallReduce 110 count_total (0::int),
                          CallAdd 250 260 1]) \<and>
   (\<exists>rw0 rw'. NewRollingWindow (2 ^ 45) 3 100 [] 0 = Inr rw0 \<and>
      run rw0 [CallAdd 30 30 (1::int), CallReduce 110 count_total (0::int), CallAdd 250 260 1]
        = Inr rw' \<and>
      lastTime rw' mod 100 = 0 \<and> lastTime rw' \<le> 260) \<and>
   valid sample_rw \<and> span sample_rw 250 = Inr 2 \<and> (0::int) < 2 \<and>
   0 < interval sample_rw \<and> lastTime sample_rw \<le> 260 \<and>
   (\<exists>rw'. updateOffset sample_rw 250 260 = Inr rw' \<and> lastTime rw' = 200)"
proof -
  have c: "clock_of [CallAdd 30 30 (1::int), CallReduce 110 count_total (0::int),
                     CallAdd 250 260 1] = [30, 30, 110, 250, 260]"
    by (simp add: clock_of_def)
  have i: "0 < interval sample_rw" "lastTime sample_rw \<le> 260" "lastTime sample_rw = 0"
    "interval sample_rw = 100"
    by (simp_all add: sample_rw_def)
  from lastTime_aligned [of 3 "2 ^ 45" 100 "[] :: int RollingWindowOption list" 0
         "[CallAdd 30 30 (1::int), CallReduce 110 count_total (0::int), CallAdd 250 260 1]"
         sample_rw 250 2 260]
       valid_sample_rw span_sample_rw c i
  show ?thesis by auto
qed

lemma bucket_ok_mono: "bucket_ok m b \<Longrightarrow> m \<le> m' \<Longrightarrow> bucket_ok m' b"
  by (auto simp: bucket_ok_def)

lemma bucket_ok_zero: "0 \<le> m \<Longrightarrow> bucket_ok m \<lparr>Sum = 0, Count = 0\<rparr>"
  by (simp add: bucket_ok_def)

lemma bucket_ok_add:
  assumes "bucket_ok m b" and "m + 1 < 2 ^ 63"
  shows "bucket_ok (m + 1) (Bucket_add b v)"
proof -
  have "0 \<le> Count b" "Count b \<le> m" using assms(1) by (simp_all add: bucket_ok_def)
  then have "wrap64 (Count b + 1) = Count b + 1"
    using assms(2) by (intro wrap64_small) simp_all
  then show ?thesis
    using \<open>0 \<le> Count b\<close> \<open>Count b \<le> m\<close> by (simp add: bucket_ok_def Bucket_add_def)
qed

lemma set_reset_slots:
  "set (reset_slots ks bs) \<subseteq> insert \<lparr>Sum = 0, Count = 0\<rparr> (set bs)"
proof (induction ks arbitrary: bs)
  case Nil
  then show ?case by auto
next
  case (Cons k ks)
  have "set (bs[k := Bucket_reset (bs ! k)]) \<subseteq> insert \<lparr>Sum = 0, Count = 0\<rparr> (set bs)"
    using set_update_subset_insert [of bs k "Bucket_reset (bs ! k)"]
    by (simp add: Bucket_reset_eq)
  with Cons.IH [of "bs[k := Bucket_reset (bs ! k)]"] show ?case by auto
qed

lemma updateOffset_buckets_ok:
  assumes v: "valid rw" and u: "updateOffset rw now1 now2 = Inr rw'"
    and ok: "\<forall>b \<in> set (buckets (win rw)). bucket_ok m b" and m: "0 \<le> m"
  shows "\<forall>b \<in> set (buckets (win rw')). bucket_ok m b"
proof -
  from u obtain s where s: "span rw now1 = Inr s"
    by (cases "span rw now1") (auto simp: updateOffset_def)
  show ?thesis
  proof (cases "0 < s")
    case True
    let ?ks = "map (\<lambda>k. nat ((offset rw + k + 1) mod size_rw rw)) [0..s - 1]"
    have "buckets (win rw') = reset_slots ?ks (buckets (win rw))"
      using updateOffset_unfold [OF v s True, of now2] u by auto
    then show ?thesis
      using set_reset_slots [of ?ks "buckets (win rw)"] ok bucket_ok_zero [OF m] by auto
  next
    case False
    then have "rw' = rw" using u s by (simp add: updateOffset_def)
    with ok show ?thesis by simp
  qed
qed

lemma Add_buckets_ok:
  assumes v: "valid rw" and a: "Add rw now1 now2 x = Inr rw'"
    and ok: "\<forall>b \<in> set (buckets (win rw)). bucket_ok m b" and m: "0 \<le> m" "m + 1 < 2 ^ 63"
  shows "\<forall>b \<in> set (buckets (win rw')). bucket_ok (m + 1) b"
proof -
  from a obtain rw1 where u: "updateOffset rw now1 now2 = Inr rw1"
    by (cases "updateOffset rw now1 now2") (auto simp: Add_def)
  have ok1: "\<forall>b \<in> set (buckets (win rw1)). bucket_ok m b"
    by (rule updateOffset_buckets_ok [OF v u ok m(1)])
  have v1: "valid rw1" using updateOffset_valid [OF v u] by simp
  let ?k = "nat (offset rw1)"
  let ?bs = "buckets (win rw1)"
  have k: "?k < length ?bs" using v1 by (auto simp: valid_def)
  have b: "buckets (win rw') = ?bs[?k := Bucket_add (?bs ! ?k) x]"
    using Add_unfold [OF v u, of x] a by auto
  have "bucket_ok m (?bs ! ?k)" using ok1 k by simp
  then have new: "bucket_ok (m + 1) (Bucket_add (?bs ! ?k) x)"
    using m(2) by (rule bucket_ok_add)
  have sub: "set (buckets (win rw')) \<subseteq> insert (Bucket_add (?bs ! ?k) x) (set ?bs)"
    unfolding b by (rule set_update_subset_insert)
  show ?thesis
  proof
    fix b' assume "b' \<in> set (buckets (win rw'))"
    with sub have "b' = Bucket_add (?bs ! ?k) x \<or> b' \<in> set ?bs" by auto
    then show "bucket_ok (m + 1) b'"
    proof
      assume "b' = Bucket_add (?bs ! ?k) x"
      with new show ?thesis by simp
    next
      assume "b' \<in> set ?bs"
      with ok1 have "bucket_ok m b'" by simp
      then show ?thesis by (rule bucket_ok_mono) simp
    qed
  qed
qed

lemma Reduce_non_mutating:
  assumes "valid rw" and "non_mutating fn" and "Reduce rw now fn st = Inr (rw', st')"
  shows "rw' = rw"
proof -
  from assms(3) obtain s where s: "span rw now = Inr s"
    by (cases "span rw now") (auto simp: Reduce_def)
  obtain bs' st'' where vs: "visit_slots fn (reduce_slots rw s) (buckets (win rw)) st = (bs', st'')"
    by (cases "visit_slots fn (reduce_slots rw s) (buckets (win rw)) st")
  with visit_slots_non_mutating [OF assms(2), of "reduce_slots rw s" "buckets (win rw)" st]
  have "bs' = buckets (win rw)" by simp
  with vs Reduce_unfold [OF assms(1) s, of fn st] assms(3)
  show ?thesis by simp
qed

lemma run_buckets_ok:
  fixes rw :: "'a::{zero,plus} RollingWindow"
  assumes "valid rw" and "\<forall>b \<in> set (buckets (win rw)). bucket_ok m b" and "0 \<le> m"
    and "list_all non_mutating_call cs" and "m + int (length cs) < 2 ^ 63"
    and "run rw cs = Inr rw'"
  shows "valid rw' \<and> (\<forall>b \<in> set (buckets (win rw')). bucket_ok (m + int (length cs)) b)"
  using assms
proof (induction cs arbitrary: rw m)
  case Nil
  then show ?case by simp
next
  case (Cons c cs)
  show ?case
  proof (cases c)
    case (CallAdd n1 n2 x)
    with Cons.prems(6) obtain rw1 where a: "Add rw n1 n2 x = Inr rw1" and r: "run rw1 cs = Inr rw'"
      by (cases "Add rw n1 n2 x") auto
    have v1: "valid rw1" using Add_valid [OF Cons.prems(1) a] by simp
    have ok1: "\<forall>b \<in> set (buckets (win rw1)). bucket_ok (m + 1) b"
      using Cons.prems(3,5) by (intro Add_buckets_ok [OF Cons.prems(1) a Cons.prems(2)]) simp_all
    have "valid rw' \<and> (\<forall>b \<in> set (buckets (win rw')). bucket_ok (m + 1 + int (length cs)) b)"
      using Cons.prems(3,4,5) by (intro Cons.IH [OF v1 ok1 _ _ _ r]) simp_all
    moreover have "m + int (length (c # cs)) = m + 1 + int (length cs)" by simp
    ultimately show ?thesis by metis
  next
    case (CallReduce n fn st)
    with Cons.prems(6) obtain rw1 st1 where a: "Reduce rw n fn st = Inr (rw1, st1)"
      and r: "run rw1 cs = Inr rw'"
      by (cases "Reduce rw n fn st") auto
    have "non_mutating fn" using Cons.prems(4) CallReduce by simp
    then have e: "rw1 = rw" using Reduce_non_mutating [OF Cons.prems(1) _ a] by simp
    have ok1: "\<forall>b \<in> set (buckets (win rw)). bucket_ok (m + 1) b"
      using Cons.prems(2) by (auto intro: bucket_ok_mono)
    have "valid rw' \<and> (\<forall>b \<in> set (buckets (win rw')). bucket_ok (m + 1 + int (length cs)) b)"
      using Cons.prems(3,4,5) r e by (intro Cons.IH [OF Cons.prems(1) ok1]) simp_all
    moreover have "m + int (length (c # cs)) = m + 1 + int (length cs)" by simp
    ultimately show ?thesis by metis
  qed
qed

lemma run_total:
  fixes rw :: "'a::{zero,plus} RollingWindow"
  assumes "valid rw" and "interval rw \<noteq> 0"
  shows "\<exists>rw'. run rw cs = Inr rw'"
  using assms
proof (induction cs arbitrary: rw)
  case Nil
  then show ?case by simp
next
  case (Cons c cs)
  show ?case
  proof (cases c)
    case (CallAdd n1 n2 x)
    obtain rw1 where a: "Add rw n1 n2 x = Inr rw1"
      using Add_total [OF Cons.prems, of n1 n2 x] by auto
    have "valid rw1" "interval rw1 \<noteq> 0"
      using Add_valid [OF Cons.prems(1) a] Cons.prems(2) by simp_all
    from Cons.IH [OF this] a CallAdd show ?thesis by simp
  next
    case (CallReduce n fn st)
    obtain rw1 st1 where a: "Reduce rw n fn st = Inr (rw1, st1)"
      using Reduce_total [OF Cons.prems, of n fn st] by auto
    have "valid rw1" "interval rw1 \<noteq> 0"
      using Reduce_valid [OF Cons.prems(1) a] Cons.prems(2) by simp_all
    from Cons.IH [OF this] a CallReduce show ?thesis by simp
  qed
qed

lemma wrap64_succ: "wrap64 (wrap64 x + 1) = wrap64 (x + 1)"
proof -
  have "(wrap64 x + 1 + 2 ^ 63) = ((x + 2 ^ 63) mod 2 ^ 64 + 1)"
    by (simp add: wrap64_def)
  then have "(wrap64 x + 1 + 2 ^ 63) mod 2 ^ 64 = ((x + 2 ^ 63) mod 2 ^ 64 + 1) mod (2 ^ 64 :: int)"
    by (simp only:)
  also have "\<dots> = (x + 2 ^ 63 + 1) mod 2 ^ 64"
    by (rule mod_add_left_eq)
  also have "\<dots> = (x + 1 + 2 ^ 63) mod 2 ^ 64"
    by (simp only: add.assoc add.commute [of 1])
  finally show ?thesis by (simp only: wrap64_def)
qed

lemma Add_frozen_rw: "Add (frozen_rw s c) 0 0 1 = Inr (frozen_rw (s + 1) (wrap64 (c + 1)))"
proof -
  have v: "valid (frozen_rw s c)" by (simp add: valid_def frozen_rw_def)
  have sp: "span (frozen_rw s c) 0 = Inr 0"
    by (simp add: span_def go_div_def Since_def frozen_rw_def)
  have u: "updateOffset (frozen_rw s c) 0 0 = Inr (frozen_rw s c)"
    using sp by (simp add: updateOffset_idle)
  show ?thesis
    using Add_unfold [OF v u, of 1]
    by (simp add: frozen_rw_def Bucket_add_def)
qed

lemma run_frozen_rw:
  "run (frozen_rw s (wrap64 c)) (replicate k (CallAdd 0 0 1 :: (int, 's) call)) =
     Inr (frozen_rw (s + int k) (wrap64 (c + int k)))"
proof (induction k arbitrary: s c)
  case 0
  then show ?case by simp
next
  case (Suc k)
  have "run (frozen_rw s (wrap64 c)) (replicate (Suc k) (CallAdd 0 0 1 :: (int, 's) call)) =
        run (frozen_rw (s + 1) (wrap64 (c + 1))) (replicate k (CallAdd 0 0 1 :: (int, 's) call))"
    by (simp add: Add_frozen_rw wrap64_succ)
  also have "\<dots> = Inr (frozen_rw (s + 1 + int k) (wrap64 (c + 1 + int k)))"
    by (rule Suc.IH)
  finally show ?case by (simp add: add.assoc add.commute add.left_commute)
qed

text \<open>
  C10 as it is stated fails when \<open>Count\<close>, an \<open>int64\<close>, wraps around: after \<open>2 ^ 63\<close>
  calls of \<open>Add\<close> within one interval the count of the active bucket is \<open>- 2 ^ 63\<close>.
\<close>

theorem count_wraps_counterexample:
  "NewRollingWindow (2 ^ 45) 1 1000000000 [] 0 = Inr (frozen_rw 0 0) \<and>
   run (frozen_rw 0 0) (replicate (2 ^ 63) (CallAdd 0 0 1) :: (int, unit) call list) =
     Inr (frozen_rw (2 ^ 63) (- (2 ^ 63))) \<and>
   Count (buckets (win (frozen_rw (2 ^ 63) (- (2 ^ 63)))) ! 0) < 0"
proof -
  have new: "NewRollingWindow (2 ^ 45) 1 1000000000 [] 0 = Inr (frozen_rw 0 0)"
    by (simp add: NewRollingWindow_def frozen_rw_def newWindow_def)
  have w0: "wrap64 0 = 0" by (simp add: wrap64_def)
  have w: "wrap64 (2 ^ 63) = - (2 ^ 63)" by (simp add: wrap64_def)
  have "run (frozen_rw 0 (wrap64 0)) (replicate (2 ^ 63) (CallAdd 0 0 1) :: (int, unit) call list) =
     Inr (frozen_rw (0 + int (2 ^ 63)) (wrap64 (0 + int (2 ^ 63))))"
    by (rule run_frozen_rw)
  then have r: "run (frozen_rw 0 0) (replicate (2 ^ 63) (CallAdd 0 0 1) :: (int, unit) call list) =
     Inr (frozen_rw (2 ^ 63) (- (2 ^ 63)))"
    by (simp only: w0 w add_0 of_nat_power of_nat_numeral)
  have c: "Count (buckets (win (frozen_rw (2 ^ 63) (- (2 ^ 63)))) ! 0) < 0"
    by (simp add: frozen_rw_def)
  from new r c show ?thesis by (intro conjI)
qed

text \<open>
  C10, as the code has it: in every state reached from construction (of a size that the
  runtime grants) by fewer than
  \<open>2 ^ 63\<close> calls of \<open>Add\<close> and \<open>Reduce\<close>, the visitors writing no bucket, every bucket
  has a count that is not negative, and a sum of zero when its count is zero. With a
  non-zero interval every such history does reach a state.
\<close>

theorem counts_stay_nonnegative:
  fixes cs :: "('a::{zero,plus}, 's) call list"
  assumes "1 \<le> n" and "set opts \<subseteq> {IgnoreCurrentBucket}"
    and "list_all non_mutating_call cs" and "int (length cs) < 2 ^ 63"
    and "n \<le> maxLen"
  shows "\<exists>rw0. NewRollingWindow maxLen n ival opts t0 = Inr rw0 \<and>
           (ival \<noteq> 0 \<longrightarrow> (\<exists>rw. run rw0 cs = Inr rw)) \<and>
           (\<forall>rw. run rw0 cs = Inr rw \<longrightarrow>
              (\<forall>b \<in> set (buckets (win rw)). 0 \<le> Count b \<and> (Count b = 0 \<longrightarrow> Sum b = 0)))"
proof -
  let ?rw0 = "\<lparr>size_rw = n, win = fresh_window n, interval = ival, offset = 0,
                ignoreCurrent = (opts \<noteq> []), lastTime = t0\<rparr> :: 'a RollingWindow"
  have new: "NewRollingWindow maxLen n ival opts t0 = Inr ?rw0"
    using assms(1,5,2) by (rule NewRollingWindow_ok)
  have v0: "valid ?rw0"
    using assms(1,2) by (rule NewRollingWindow_valid)
  have ok0: "\<forall>b \<in> set (buckets (win ?rw0)). bucket_ok 0 b"
    by (simp add: fresh_window_def bucket_ok_def)
  have tot: "ival \<noteq> 0 \<longrightarrow> (\<exists>rw. run ?rw0 cs = Inr rw)"
    using run_total [OF v0, of cs] by simp
  have inv: "\<forall>rw. run ?rw0 cs = Inr rw \<longrightarrow>
              (\<forall>b \<in> set (buckets (win rw)). 0 \<le> Count b \<and> (Count b = 0 \<longrightarrow> Sum b = 0))"
  proof (intro allI impI)
    fix rw assume r: "run ?rw0 cs = Inr rw"
    have "valid rw \<and> (\<forall>b \<in> set (buckets (win rw)). bucket_ok (0 + int (length cs)) b)"
      using assms(3,4) by (intro run_buckets_ok [OF v0 ok0 _ _ _ r]) simp_all
    then show "\<forall>b \<in> set (buckets (win rw)). 0 \<le> Count b \<and> (Count b = 0 \<longrightarrow> Sum b = 0)"
      by (simp add: bucket_ok_def)
  qed
  from new tot inv show ?thesis by blast
qed

theorem counts_stay_nonnegative_witness:
  "(1::int) \<le> 3 \<and> set ([] :: int RollingWindowOption list) \<subseteq> {IgnoreCurrentBucket} \<and>
   list_all non_mutating_call
     [CallAdd 30 30 (1::int), CallReduce 110 count_total (0::int), CallAdd 250 260 1] \<and>
   int (length [CallAdd 30 30 (1::int), CallReduce 110 count_total (0::int), CallAdd 250 260 1])
     < 2 ^ 63 \<and>
   (3::int) \<le> 2 ^ 45 \<and>
   (\<exists>rw0 rw. NewRollingWindow (2 ^ 45) 3 100 [] 0 = Inr rw0 \<and>
      run rw0 [CallAdd 30 30 (1::int), CallReduce 110 count_total (0::int), CallAdd 250 260 1]
        = Inr rw \<and>
      (\<forall>b \<in> set (buckets (win rw)). 0 \<le> Count b \<and> (Count b = 0 \<longrightarrow> Sum b = 0)))"
proof -
  let ?cs = "[CallAdd 30 30 (1::int), CallReduce 110 count_total (0::int), CallAdd 250 260 1]"
  have nm: "list_all non_mutating_call ?cs"
    by (simp add: non_mutating_def count_total_def)
  have len: "int (length ?cs) < 2 ^ 63" by simp
  have o: "set ([] :: int RollingWindowOption list) \<subseteq> {IgnoreCurrentBucket}" by simp
  have n: "(1::int) \<le> 3" by simp
  have lim: "(3::int) \<le> 2 ^ 45" by simp
  from counts_stay_nonnegative [OF n o nm len lim, of 100 0]
  obtain rw0 where new: "NewRollingWindow (2 ^ 45) 3 100 [] 0 = Inr rw0"
    and tot: "\<exists>rw. run rw0 ?cs = Inr rw"
    and inv: "\<forall>rw. run rw0 ?cs = Inr rw \<longrightarrow>
      (\<forall>b \<in> set (buckets (win rw)). 0 \<le> Count b \<and> (Count b = 0 \<longrightarrow> Sum b = 0))"
    by auto
  from tot obtain rw where r: "run rw0 ?cs = Inr rw" ..
  with inv have "\<forall>b \<in> set (buckets (win rw)). 0 \<le> Count b \<and> (Count b = 0 \<longrightarrow> Sum b = 0)"
    by blast
  with new r n o nm len lim show ?thesis by blast
qed

end
